theory Spec2Isabelle
  imports Main
begin

section \<open>The class layer of legionJS (src/legion/class.js)\<close>

text \<open>
  The file \<^verbatim>\<open>class.js\<close> builds classical inheritance on JavaScript prototypes. Its
  functions work on objects with a prototype link, on function values that are objects
  themselves, and on three pieces of shared state: the \<^verbatim>\<open>extending\<close> flag of the
  closure around \<^verbatim>\<open>_extendSingle\<close>, the registry \<^verbatim>\<open>legion._classes\<close> and the log of
  \<^verbatim>\<open>legion.log\<close>. The embedding keeps that shape: a heap of objects addressed by
  their index, values that point into it, and one HOL function for each function of the
  file, taking the state and returning the new one.
\<close>

subsection \<open>Values\<close>

type_synonym addr = nat

text \<open>
  JavaScript values. Numbers are integers (the file does no arithmetic on them). An
  array is an immutable sequence of values: nothing in \<^verbatim>\<open>class.js\<close> writes to an array,
  it only reads \<^verbatim>\<open>length\<close> and the elements. Every other object, functions included,
  lives in the heap and is named by its address.
\<close>

datatype val = Undefined | Null | Bool bool | Num int | Str string | Arr "val list" | Ref addr

text \<open>
  The body of a function supplied by the caller (a method of a definition object, a
  constructor, the \<^verbatim>\<open>_getObjectID\<close> of a game): a tree of the operations it performs.
  It returns, throws, reads or writes a property, or calls a function value with a
  receiver and arguments and goes on with the result.
\<close>

datatype act =
    Ret val
  | Thr val
  | GetP val string "val \<Rightarrow> act"
  | SetP val string val act
  | CallF val val "val list" "val \<Rightarrow> act"

text \<open>
  The code of a function object. Each function expression of \<^verbatim>\<open>class.js\<close> has its own
  constructor; \<open>ParentFn childFunction parentFunction\<close> is the closure returned by
  \<^verbatim>\<open>createParent\<close>, \<open>ClassFn\<close> the constructor \<^verbatim>\<open>Class\<close> created by each run of
  \<^verbatim>\<open>_extendSingle\<close>, \<open>EmptyFn\<close> the \<^verbatim>\<open>function() {}\<close> the base class is built from, and
  \<open>UserFn\<close> a function of the caller, given its receiver and arguments.
\<close>

datatype code =
    EmptyFn
  | ClassFn
  | ExtendFn
  | ImplementFn
  | ExtendSingleFn
  | ParentFn val val
  | InitFn
  | MixinFn
  | BindGameFn
  | SerializeFn
  | UserFn "val \<Rightarrow> val list \<Rightarrow> act"

text \<open>
  An object: its own properties in insertion order (name, value, enumerable), its
  prototype link and, for a function, its code.
\<close>

record obj =
  props :: "(string \<times> val \<times> bool) list"
  proto :: "addr option"
  callable :: "code option"

text \<open>
  The state. \<open>extending\<close> is the variable of the closure around \<^verbatim>\<open>_extendSingle\<close>
  (declared without a value, which is falsy, hence \<open>False\<close> at the start); \<open>classes\<close>
  is \<^verbatim>\<open>legion._classes\<close>; \<open>logged\<close> collects the arguments of \<^verbatim>\<open>legion.log\<close>.

  Modelled from the spec: the global \<^verbatim>\<open>legion\<close> and the module \<^verbatim>\<open>legion/strings\<close> are
  not among the sources. \<open>lang\<close> stands for \<^verbatim>\<open>legion.locale\<close>, \<open>unsafeMixin\<close> maps a
  locale that has a table in \<^verbatim>\<open>strings\<close> to the \<^verbatim>\<open>unsafeMixin\<close> entry of that table, and
  \<^verbatim>\<open>legion.log\<close> appends its argument to \<open>logged\<close>.
\<close>

record state =
  heap :: "obj list"
  extending :: bool
  classes :: "string \<Rightarrow> val option"
  logged :: "val list"
  lang :: string
  unsafeMixin :: "string \<Rightarrow> val option"

datatype exn = TypeError | Thrown val | Unmodelled

datatype res = Ok val state | Err exn state

type_synonym callf = "state \<Rightarrow> val \<Rightarrow> val \<Rightarrow> val list \<Rightarrow> res option"

text \<open>
  \<open>Unmodelled\<close> marks the few places where the embedding stops: a write to an array, a
  registry key that is an object, an array used as a prototype. No theorem below claims
  anything about them. A result of type \<open>res option\<close> is \<open>None\<close> when the fuel of the
  interpreter ran out.
\<close>

subsection \<open>Well-known objects\<close>

definition object_proto :: addr where "object_proto = 0"
definition function_proto :: addr where "function_proto = 1"
definition extend_addr :: addr where "extend_addr = 2"
definition implement_addr :: addr where "implement_addr = 4"
definition extendSingle_addr :: addr where "extendSingle_addr = 6"

subsection \<open>Property access\<close>

text \<open>
  Objects are allocated at increasing addresses and the prototype of an object is fixed
  when it is created, so a prototype link points to a lower address; a link that does
  not ends the chain.
\<close>

function proto_chain :: "obj list \<Rightarrow> addr \<Rightarrow> addr list" where
  "proto_chain h a =
     (if a < length h
      then a # (case proto (h ! a) of
                  None \<Rightarrow> []
                | Some p \<Rightarrow> if p < a then proto_chain h p else [])
      else [])"
  by pat_completeness auto
termination
  by (relation "measure snd") auto

declare proto_chain.simps [simp del]

definition own_val :: "obj \<Rightarrow> string \<Rightarrow> val option" where
  "own_val ob k = map_option fst (map_of (props ob) k)"

primrec first_own :: "obj list \<Rightarrow> addr list \<Rightarrow> string \<Rightarrow> val option" where
  "first_own h [] k = None"
| "first_own h (a # as) k =
     (case own_val (h ! a) k of Some v \<Rightarrow> Some v | None \<Rightarrow> first_own h as k)"

definition lookup :: "obj list \<Rightarrow> addr \<Rightarrow> string \<Rightarrow> val option" where
  "lookup h a k = first_own h (proto_chain h a) k"

text \<open>Decimal numerals, for the index keys of arrays and strings.\<close>

definition digit :: "nat \<Rightarrow> char" where
  "digit n = ''0123456789'' ! n"

function dec :: "nat \<Rightarrow> string" where
  "dec n = (if n < 10 then [digit n] else dec (n div 10) @ [digit (n mod 10)])"
  by pat_completeness auto
termination
  by (relation "measure id") auto

declare dec.simps [simp del]

definition index_get :: "val list \<Rightarrow> string \<Rightarrow> val" where
  "index_get vs k =
     (if k = ''length'' then Num (int (length vs))
      else case find (\<lambda>i. dec i = k) [0..<length vs] of
             Some i \<Rightarrow> vs ! i
           | None \<Rightarrow> Undefined)"

definition index_has :: "val list \<Rightarrow> string \<Rightarrow> bool" where
  "index_has vs k =
     (k = ''length'' \<or> (case find (\<lambda>i. dec i = k) [0..<length vs] of Some i \<Rightarrow> True | None \<Rightarrow> False))"

text \<open>
  \<^verbatim>\<open>v[k]\<close> as a read. On \<^verbatim>\<open>undefined\<close> and \<^verbatim>\<open>null\<close> it throws; the built-in members of
  the prototypes of numbers, booleans, strings and arrays are left out.
\<close>

definition get_val :: "state \<Rightarrow> val \<Rightarrow> string \<Rightarrow> exn + val" where
  "get_val s v k =
     (case v of
        Undefined \<Rightarrow> Inl TypeError
      | Null \<Rightarrow> Inl TypeError
      | Bool b \<Rightarrow> Inr Undefined
      | Num n \<Rightarrow> Inr Undefined
      | Str cs \<Rightarrow> Inr (index_get (map (\<lambda>c. Str [c]) cs) k)
      | Arr vs \<Rightarrow> Inr (index_get vs k)
      | Ref a \<Rightarrow> Inr (case lookup (heap s) a k of Some x \<Rightarrow> x | None \<Rightarrow> Undefined))"

text \<open>\<^verbatim>\<open>k in v\<close>: a type error unless \<open>v\<close> is an object.\<close>

definition has_val :: "state \<Rightarrow> val \<Rightarrow> string \<Rightarrow> exn + bool" where
  "has_val s v k =
     (case v of
        Arr vs \<Rightarrow> Inr (index_has vs k)
      | Ref a \<Rightarrow> Inr (case lookup (heap s) a k of Some x \<Rightarrow> True | None \<Rightarrow> False)
      | _ \<Rightarrow> Inl TypeError)"

text \<open>
  \<^verbatim>\<open>v[k] = x\<close>: an own property keeps its place and its flag, a new one is appended and
  enumerable. The file is in strict mode, so a write to a primitive throws.
\<close>

primrec set_own :: "(string \<times> val \<times> bool) list \<Rightarrow> string \<Rightarrow> val \<Rightarrow> (string \<times> val \<times> bool) list" where
  "set_own [] k x = [(k, x, True)]"
| "set_own (p # ps) k x =
     (if fst p = k then (k, x, snd (snd p)) # ps else p # set_own ps k x)"

definition put :: "state \<Rightarrow> addr \<Rightarrow> string \<Rightarrow> val \<Rightarrow> state" where
  "put s a k x =
     s\<lparr>heap := (heap s)[a := (heap s ! a)\<lparr>props := set_own (props (heap s ! a)) k x\<rparr>]\<rparr>"

definition set_val :: "state \<Rightarrow> val \<Rightarrow> string \<Rightarrow> val \<Rightarrow> exn + state" where
  "set_val s v k x =
     (case v of
        Ref a \<Rightarrow> if a < length (heap s) then Inr (put s a k x) else Inl Unmodelled
      | Arr vs \<Rightarrow> Inl Unmodelled
      | _ \<Rightarrow> Inl TypeError)"

text \<open>
  The keys a \<^verbatim>\<open>for (var key in v)\<close> loop visits: the enumerable properties of the object
  and of its prototypes, own ones first, a name hidden by a nearer object left out. The
  index keys of an array or a string; no key for any other primitive.
\<close>

primrec chain_keys :: "obj list \<Rightarrow> addr list \<Rightarrow> string list \<Rightarrow> string list" where
  "chain_keys h [] seen = []"
| "chain_keys h (a # as) seen =
     filter (\<lambda>k. k \<notin> set seen) (remdups (map fst (filter (\<lambda>p. snd (snd p)) (props (h ! a)))))
     @ chain_keys h as (seen @ map fst (props (h ! a)))"

definition for_in_keys :: "state \<Rightarrow> val \<Rightarrow> string list" where
  "for_in_keys s v =
     (case v of
        Ref a \<Rightarrow> chain_keys (heap s) (proto_chain (heap s) a) []
      | Arr vs \<Rightarrow> map dec [0..<length vs]
      | Str cs \<Rightarrow> map dec [0..<length cs]
      | _ \<Rightarrow> [])"

text \<open>\<^verbatim>\<open>typeof v === 'function'\<close>, truthiness, and the two \<^verbatim>\<open>instanceof\<close> tests.\<close>

definition is_fun :: "state \<Rightarrow> val \<Rightarrow> bool" where
  "is_fun s v =
     (case v of
        Ref a \<Rightarrow> a < length (heap s) \<and> (case callable (heap s ! a) of Some c \<Rightarrow> True | None \<Rightarrow> False)
      | _ \<Rightarrow> False)"

definition truthy :: "val \<Rightarrow> bool" where
  "truthy v =
     (case v of
        Undefined \<Rightarrow> False
      | Null \<Rightarrow> False
      | Bool b \<Rightarrow> b
      | Num n \<Rightarrow> n \<noteq> 0
      | Str cs \<Rightarrow> cs \<noteq> []
      | _ \<Rightarrow> True)"

definition is_object :: "val \<Rightarrow> bool" where
  "is_object v = (case v of Ref a \<Rightarrow> True | Arr vs \<Rightarrow> True | _ \<Rightarrow> False)"

definition instanceof_Object :: "state \<Rightarrow> val \<Rightarrow> bool" where
  "instanceof_Object s v =
     (case v of
        Arr vs \<Rightarrow> True
      | Ref a \<Rightarrow> object_proto \<in> set (tl (proto_chain (heap s) a))
      | _ \<Rightarrow> False)"

definition instanceof_Array :: "val \<Rightarrow> bool" where
  "instanceof_Array v = (case v of Arr vs \<Rightarrow> True | _ \<Rightarrow> False)"

subsection \<open>Allocation\<close>

definition alloc :: "obj \<Rightarrow> state \<Rightarrow> addr \<times> state" where
  "alloc ob s = (length (heap s), s\<lparr>heap := heap s @ [ob]\<rparr>)"

text \<open>
  A function expression creates the function object and the object its \<^verbatim>\<open>prototype\<close>
  property points to, which points back through \<^verbatim>\<open>constructor\<close>.
\<close>

definition alloc_fun :: "code \<Rightarrow> state \<Rightarrow> addr \<times> state" where
  "alloc_fun c s =
     (let f = length (heap s) in
      (f, s\<lparr>heap := heap s @
            [\<lparr>props = [(''prototype'', Ref (Suc f), False)], proto = Some function_proto,
              callable = Some c\<rparr>,
             \<lparr>props = [(''constructor'', Ref f, False)], proto = Some object_proto,
              callable = None\<rparr>]\<rparr>))"

subsection \<open>Sequencing\<close>

definition arg_at :: "val list \<Rightarrow> nat \<Rightarrow> val" where
  "arg_at args i = (if i < length args then args ! i else Undefined)"

definition get_then :: "state \<Rightarrow> val \<Rightarrow> string \<Rightarrow> (val \<Rightarrow> res option) \<Rightarrow> res option" where
  "get_then s v k cont = (case get_val s v k of Inl e \<Rightarrow> Some (Err e s) | Inr x \<Rightarrow> cont x)"

definition set_then :: "state \<Rightarrow> val \<Rightarrow> string \<Rightarrow> val \<Rightarrow> (state \<Rightarrow> res option) \<Rightarrow> res option" where
  "set_then s v k x cont = (case set_val s v k x of Inl e \<Rightarrow> Some (Err e s) | Inr s' \<Rightarrow> cont s')"

definition call_then :: "res option \<Rightarrow> (val \<Rightarrow> state \<Rightarrow> res option) \<Rightarrow> res option" where
  "call_then r cont =
     (case r of
        None \<Rightarrow> None
      | Some (Err e s) \<Rightarrow> Some (Err e s)
      | Some (Ok v s) \<Rightarrow> cont v s)"

subsection \<open>createParent (lines 14-30)\<close>

definition createParent :: "val \<Rightarrow> val \<Rightarrow> state \<Rightarrow> val \<times> state" where
  "createParent childFunction parentFunction s =
     (let (w, s') = alloc_fun (ParentFn childFunction parentFunction) s in (Ref w, s'))"

text \<open>
  The returned closure, called: save \<^verbatim>\<open>this.parent\<close>, set it to \<open>parentFunction\<close>, call
  \<open>childFunction\<close> on the same receiver and arguments, restore, return. A throw of the
  child leaves at once, as the source has no \<^verbatim>\<open>try\<close>.
\<close>

definition parent_call :: "callf \<Rightarrow> val \<Rightarrow> val \<Rightarrow> state \<Rightarrow> val \<Rightarrow> val list \<Rightarrow> res option" where
  "parent_call callf childFunction parentFunction s this args =
     get_then s this ''parent'' (\<lambda>tmp.
     set_then s this ''parent'' parentFunction (\<lambda>s1.
     call_then (callf s1 childFunction this args) (\<lambda>returnValue s2.
     set_then s2 this ''parent'' tmp (\<lambda>s3.
     Some (Ok returnValue s3)))))"

subsection \<open>The constructor Class (lines 129-136) and new\<close>

text \<open>
  \<^verbatim>\<open>this.init.apply(this, arguments)\<close> is the call of \<^verbatim>\<open>this.init\<close> on the receiver with
  the same arguments; a value that is no function cannot be called (a type error).
\<close>

definition class_call :: "callf \<Rightarrow> state \<Rightarrow> val \<Rightarrow> val list \<Rightarrow> res option" where
  "class_call callf s this args =
     (if \<not> extending s
      then get_then s this ''init'' (\<lambda>init.
           call_then (callf s init this args) (\<lambda>r s1. Some (Ok Undefined s1)))
      else Some (Ok Undefined s))"

text \<open>
  \<^verbatim>\<open>new f(args)\<close>: a fresh object whose prototype is \<^verbatim>\<open>f.prototype\<close> when that is an
  object and \<^verbatim>\<open>Object.prototype\<close> otherwise; the result is what \<open>f\<close> returns when that is
  an object, and the fresh object otherwise.
\<close>

definition construct :: "callf \<Rightarrow> state \<Rightarrow> val \<Rightarrow> val list \<Rightarrow> res option" where
  "construct callf s f args =
     (if \<not> is_fun s f then Some (Err TypeError s)
      else get_then s f ''prototype'' (\<lambda>pv.
        case pv of
          Arr vs \<Rightarrow> Some (Err Unmodelled s)
        | _ \<Rightarrow>
          (let pa = (case pv of Ref p \<Rightarrow> p | _ \<Rightarrow> object_proto);
               (a, s1) = alloc \<lparr>props = [], proto = Some pa, callable = None\<rparr> s
           in call_then (callf s1 f (Ref a) args) (\<lambda>r s2.
              Some (Ok (if is_object r then r else Ref a) s2)))))"

subsection \<open>extend (lines 52-56)\<close>

definition extend_call :: "callf \<Rightarrow> state \<Rightarrow> val \<Rightarrow> val list \<Rightarrow> res option" where
  "extend_call callf s this args =
     (let child = arg_at args 0 in
      if instanceof_Object s child
      then get_then s this ''_extendSingle'' (\<lambda>m. callf s m this [child])
      else Some (Ok Undefined s))"

subsection \<open>implement (lines 90-103)\<close>

function implement_loop :: "callf \<Rightarrow> val list \<Rightarrow> state \<Rightarrow> val \<Rightarrow> nat \<Rightarrow> res option" where
  "implement_loop callf child s this' i =
     (if i < length child
      then (case get_val s this' ''_extendSingle'' of
              Inl e \<Rightarrow> Some (Err e s)
            | Inr m \<Rightarrow>
               (case callf s m this' [child ! i] of
                  None \<Rightarrow> None
                | Some (Err e s') \<Rightarrow> Some (Err e s')
                | Some (Ok r s') \<Rightarrow> implement_loop callf child s' r (Suc i)))
      else Some (Ok this' s))"
  by pat_completeness auto
termination
  by (relation "measure (\<lambda>(callf, child, s, this', i). length child - i)") auto

declare implement_loop.simps [simp del]

definition implement_call :: "callf \<Rightarrow> state \<Rightarrow> val \<Rightarrow> val list \<Rightarrow> res option" where
  "implement_call callf s this args =
     (let child = arg_at args 0 in
      case child of
        Arr items \<Rightarrow> implement_loop callf items s this 0
      | _ \<Rightarrow> get_then s this ''_extendSingle'' (\<lambda>m. callf s m this [child]))"

subsection \<open>_extendSingle (lines 117-171)\<close>

text \<open>The loop of lines 155-164 over the keys of \<open>child\<close>.\<close>

primrec assign_props :: "addr \<Rightarrow> val \<Rightarrow> string list \<Rightarrow> state \<Rightarrow> res option" where
  "assign_props Class child [] s = Some (Ok Undefined s)"
| "assign_props Class child (key # keys) s =
     get_then s child key (\<lambda>cv.
     get_then s (Ref Class) ''prototype'' (\<lambda>pr.
     get_then s pr key (\<lambda>pv.
       if is_fun s cv \<and> is_fun s pv
       then (let (w, s1) = createParent cv pv s in
             set_then s1 pr key w (\<lambda>s2. assign_props Class child keys s2))
       else set_then s pr key cv (\<lambda>s2. assign_props Class child keys s2))))"

text \<open>
  The key under which \<^verbatim>\<open>legion._classes[Class.prototype.className]\<close> stores the class:
  the string a primitive converts to.
\<close>

definition to_key :: "val \<Rightarrow> string option" where
  "to_key v =
     (case v of
        Str cs \<Rightarrow> Some cs
      | Undefined \<Rightarrow> Some ''undefined''
      | Null \<Rightarrow> Some ''null''
      | Bool b \<Rightarrow> Some (if b then ''true'' else ''false'')
      | Num n \<Rightarrow> Some (if n < 0 then ''-'' @ dec (nat (- n)) else dec (nat n))
      | _ \<Rightarrow> None)"

text \<open>Lines 144-148: a function given as \<open>child\<close> is replaced by an instance of itself.\<close>

definition materialize :: "callf \<Rightarrow> state \<Rightarrow> val \<Rightarrow> (val \<Rightarrow> state \<Rightarrow> res option) \<Rightarrow> res option" where
  "materialize callf s child cont =
     (if is_fun s child
      then call_then (construct callf (s\<lparr>extending := True\<rparr>) child [])
             (\<lambda>c s1. cont c (s1\<lparr>extending := False\<rparr>))
      else cont child s)"

definition extendSingle_call :: "callf \<Rightarrow> state \<Rightarrow> val \<Rightarrow> val list \<Rightarrow> res option" where
  "extendSingle_call callf s this args =
     (let (Class, s1) = alloc_fun ClassFn s;
          s2 = put s1 Class ''extend'' (Ref extend_addr);
          s3 = put s2 Class ''_extendSingle'' (Ref extendSingle_addr);
          s4 = put s3 Class ''implement'' (Ref implement_addr)
      in materialize callf s4 (arg_at args 0) (\<lambda>child s5.
         call_then (construct callf (s5\<lparr>extending := True\<rparr>) this []) (\<lambda>p s6.
         let s7 = (put s6 Class ''prototype'' p)\<lparr>extending := False\<rparr> in
         call_then (assign_props Class child (for_in_keys s7 child) s7) (\<lambda>u s8.
         get_then s8 (Ref Class) ''prototype'' (\<lambda>pr.
         get_then s8 pr ''className'' (\<lambda>cn.
           case to_key cn of
             None \<Rightarrow> Some (Err Unmodelled s8)
           | Some k \<Rightarrow> Some (Ok (Ref Class) (s8\<lparr>classes := (classes s8)(k \<mapsto> Ref Class)\<rparr>))))))))"

subsection \<open>The members of the base class (lines 176-276)\<close>

definition init_call :: "callf \<Rightarrow> state \<Rightarrow> val \<Rightarrow> val list \<Rightarrow> res option" where
  "init_call callf s this args =
     get_then s this ''mixin'' (\<lambda>m.
     call_then (callf s m this [arg_at args 0, Bool True]) (\<lambda>r s1.
     Some (Ok Undefined s1)))"

definition log_warning :: "state \<Rightarrow> exn + state" where
  "log_warning s =
     (case unsafeMixin s (lang s) of
        None \<Rightarrow> Inl TypeError
      | Some msg \<Rightarrow> Inr (s\<lparr>logged := logged s @ [msg]\<rparr>))"

primrec mixin_loop :: "val \<Rightarrow> val \<Rightarrow> val \<Rightarrow> string list \<Rightarrow> state \<Rightarrow> res option" where
  "mixin_loop this properties safe [] s = Some (Ok this s)"
| "mixin_loop this properties safe (key # keys) s =
     get_then s properties key (\<lambda>pv.
       if \<not> is_fun s pv
       then set_then s this key pv (\<lambda>s1. mixin_loop this properties safe keys s1)
       else (case has_val s this key of
               Inl e \<Rightarrow> Some (Err e s)
             | Inr b \<Rightarrow>
                 if \<not> b \<or> \<not> truthy safe
                 then set_then s this key pv (\<lambda>s1. mixin_loop this properties safe keys s1)
                 else (case log_warning s of
                         Inl e \<Rightarrow> Some (Err e s)
                       | Inr s1 \<Rightarrow> mixin_loop this properties safe keys s1)))"

definition mixin_call :: "state \<Rightarrow> val \<Rightarrow> val list \<Rightarrow> res option" where
  "mixin_call s this args =
     (let properties = arg_at args 0; safe = arg_at args 1 in
      mixin_loop this properties safe (for_in_keys s properties) s)"

definition bindGame_call :: "callf \<Rightarrow> state \<Rightarrow> val \<Rightarrow> val list \<Rightarrow> res option" where
  "bindGame_call callf s this args =
     (let game = arg_at args 0;
          bind_client = (\<lambda>s2.
            get_then s2 this ''clientID'' (\<lambda>cv.
              if cv = Null
              then get_then s2 game ''clientID'' (\<lambda>gc.
                   set_then s2 this ''clientID'' gc (\<lambda>s3. Some (Ok Undefined s3)))
              else Some (Ok Undefined s2)))
      in set_then s this ''game'' game (\<lambda>s1.
         if truthy game
         then get_then s1 this ''id'' (\<lambda>idv.
                if idv = Null
                then get_then s1 game ''_getObjectID'' (\<lambda>f.
                     call_then (callf s1 f game []) (\<lambda>r s2.
                     set_then s2 this ''id'' r bind_client))
                else bind_client s1)
         else Some (Ok Undefined s1)))"

definition serialize_call :: "state \<Rightarrow> val \<Rightarrow> res option" where
  "serialize_call s this =
     get_then s this ''id'' (\<lambda>i.
     get_then s this ''clientID'' (\<lambda>c.
     get_then s this ''className'' (\<lambda>n.
       let (a, s1) = alloc \<lparr>props = [(''id'', i, True), (''clientID'', c, True),
                                     (''className'', n, True)],
                            proto = Some object_proto, callable = None\<rparr> s
       in Some (Ok (Ref a) s1))))"

subsection \<open>Calling a function value\<close>

text \<open>The body of a caller's function, run against the state.\<close>

primrec run_act :: "callf \<Rightarrow> act \<Rightarrow> state \<Rightarrow> res option" where
  "run_act callf (Ret v) s = Some (Ok v s)"
| "run_act callf (Thr v) s = Some (Err (Thrown v) s)"
| "run_act callf (GetP r k cont) s =
     (case get_val s r k of
        Inl e \<Rightarrow> Some (Err e s)
      | Inr x \<Rightarrow> run_act callf (cont x) s)"
| "run_act callf (SetP r k x a) s =
     (case set_val s r k x of
        Inl e \<Rightarrow> Some (Err e s)
      | Inr s' \<Rightarrow> run_act callf a s')"
| "run_act callf (CallF f t args cont) s =
     (case callf s f t args of
        None \<Rightarrow> None
      | Some (Err e s') \<Rightarrow> Some (Err e s')
      | Some (Ok x s') \<Rightarrow> run_act callf (cont x) s')"

text \<open>
  \<open>call n s f this args\<close> calls the value \<open>f\<close> with receiver \<open>this\<close>. A caller's function
  may call back into the class layer and need not return, so the interpreter counts
  nested calls down from \<open>n\<close> and yields \<open>None\<close> when they are used up.
\<close>

primrec call :: "nat \<Rightarrow> callf" where
  "call 0 = (\<lambda>s f this args. None)"
| "call (Suc n) = (\<lambda>s f this args.
     if \<not> is_fun s f then Some (Err TypeError s)
     else (case f of
        Ref a \<Rightarrow>
          (case callable (heap s ! a) of
             None \<Rightarrow> Some (Err TypeError s)
           | Some c \<Rightarrow>
              (case c of
                 EmptyFn \<Rightarrow> Some (Ok Undefined s)
               | ClassFn \<Rightarrow> class_call (call n) s this args
               | ExtendFn \<Rightarrow> extend_call (call n) s this args
               | ImplementFn \<Rightarrow> implement_call (call n) s this args
               | ExtendSingleFn \<Rightarrow> extendSingle_call (call n) s this args
               | ParentFn childFunction parentFunction \<Rightarrow>
                   parent_call (call n) childFunction parentFunction s this args
               | InitFn \<Rightarrow> init_call (call n) s this args
               | MixinFn \<Rightarrow> mixin_call s this args
               | BindGameFn \<Rightarrow> bindGame_call (call n) s this args
               | SerializeFn \<Rightarrow> serialize_call s this
               | UserFn body \<Rightarrow> run_act (call n) (body this args) s))
      | _ \<Rightarrow> Some (Err TypeError s)))"

subsection \<open>Loading the module (lines 3 and 173-276)\<close>

text \<open>
  The state in which the module body runs: \<^verbatim>\<open>Object.prototype\<close> and
  \<^verbatim>\<open>Function.prototype\<close> (their built-in members left out), then the function objects
  of \<^verbatim>\<open>extend\<close>, \<^verbatim>\<open>implement\<close> and \<^verbatim>\<open>_extendSingle\<close>, the \<^verbatim>\<open>function() {}\<close> of line 174,
  the four methods of the object literal and the literal itself.
\<close>

definition empty_state :: "string \<Rightarrow> (string \<Rightarrow> val option) \<Rightarrow> state" where
  "empty_state l tab =
     \<lparr>heap = [\<lparr>props = [], proto = None, callable = None\<rparr>,
              \<lparr>props = [], proto = Some object_proto, callable = None\<rparr>],
      extending = False, classes = Map.empty, logged = [], lang = l, unsafeMixin = tab\<rparr>"

definition module_state :: "string \<Rightarrow> (string \<Rightarrow> val option) \<Rightarrow> state" where
  "module_state l tab =
     (let s0 = empty_state l tab;
          (extend, s1) = alloc_fun ExtendFn s0;
          (implement, s2) = alloc_fun ImplementFn s1;
          (extendSingle, s3) = alloc_fun ExtendSingleFn s2;
          (root, s4) = alloc_fun EmptyFn s3;
          (init, s5) = alloc_fun InitFn s4;
          (mixin, s6) = alloc_fun MixinFn s5;
          (bindGame, s7) = alloc_fun BindGameFn s6;
          (serialize, s8) = alloc_fun SerializeFn s7;
          (lit, s9) = alloc \<lparr>props = [(''className'', Str ''Class'', True),
                                       (''game'', Null, True),
                                       (''id'', Null, True),
                                       (''clientID'', Null, True),
                                       (''init'', Ref init, True),
                                       (''mixin'', Ref mixin, True),
                                       (''_bindGame'', Ref bindGame, True),
                                       (''serialize'', Ref serialize, True)],
                              proto = Some object_proto, callable = None\<rparr> s8
      in s9)"

definition root_addr :: addr where "root_addr = 8"
definition literal_addr :: addr where "literal_addr = 18"

text \<open>Line 174: \<^verbatim>\<open>return _extendSingle.call(function() {}, {...})\<close>.\<close>

definition load_module :: "nat \<Rightarrow> string \<Rightarrow> (string \<Rightarrow> val option) \<Rightarrow> res option" where
  "load_module n l tab =
     call n (module_state l tab) (Ref extendSingle_addr) (Ref root_addr) [Ref literal_addr]"

section \<open>Notions used in the statements\<close>

subsection \<open>Reading states\<close>

text \<open>
  The value of \<^verbatim>\<open>a.k\<close> for the object at \<open>a\<close>: the first value found along the prototype chain,
  \<^verbatim>\<open>undefined\<close> when no object of the chain has the key.
\<close>

definition field :: "state \<Rightarrow> addr \<Rightarrow> string \<Rightarrow> val" where
  "field s a k = (case lookup (heap s) a k of Some x \<Rightarrow> x | None \<Rightarrow> Undefined)"

text \<open>
  The first \<open>n\<close> objects of the heap are the same in both states: what a call that only
  allocates, or writes to objects it allocated, leaves of the state it started in.
\<close>

definition same_below :: "nat \<Rightarrow> state \<Rightarrow> state \<Rightarrow> bool" where
  "same_below n s s' \<longleftrightarrow>
     n \<le> length (heap s) \<and> n \<le> length (heap s') \<and> take n (heap s') = take n (heap s)"

text \<open>
  A function whose call does nothing while \<open>extending\<close> is set: the constructor of a Type
  (lines 129-136), or the empty function of line 174.
\<close>

definition inert :: "state \<Rightarrow> addr \<Rightarrow> bool" where
  "inert s f \<longleftrightarrow> f < length (heap s) \<and>
     (case callable (heap s ! f) of Some ClassFn \<Rightarrow> True | Some EmptyFn \<Rightarrow> True | _ \<Rightarrow> False)"

text \<open>
  The value of \<^verbatim>\<open>v[k]\<close>, with \<^verbatim>\<open>undefined\<close> where the read is an error.
\<close>

definition get_or :: "state \<Rightarrow> val \<Rightarrow> string \<Rightarrow> val" where
  "get_or s v k = (case get_val s v k of Inr x \<Rightarrow> x | Inl e \<Rightarrow> Undefined)"

subsection \<open>The parts of \<^verbatim>\<open>_extendSingle\<close>\<close>

text \<open>
  One round of the loop of lines 155-164 on the new prototype \<open>o'\<close>, as a function on states.
\<close>

definition assign_step :: "addr \<Rightarrow> val \<Rightarrow> state \<Rightarrow> string \<Rightarrow> state" where
  "assign_step o' child s key =
     (let cv = get_or s child key; pv = field s o' key in
      if is_fun s cv \<and> is_fun s pv
      then put (snd (alloc_fun (ParentFn cv pv) s)) o' key (Ref (length (heap s)))
      else put s o' key cv)"

text \<open>
  Lines 129-141: the new constructor \<^verbatim>\<open>Class\<close> with its three static members.
\<close>

definition class_shell :: "state \<Rightarrow> state" where
  "class_shell s =
     (let c = length (heap s) in
      put (put (put (snd (alloc_fun ClassFn s)) c ''extend'' (Ref extend_addr))
             c ''_extendSingle'' (Ref extendSingle_addr))
        c ''implement'' (Ref implement_addr))"

text \<open>
  Lines 150-164 for a receiver whose constructor does nothing: the new prototype object is
  allocated, stored in \<^verbatim>\<open>Class.prototype\<close>, and the loop runs over the keys of the definition.
\<close>

definition finish_class :: "addr \<Rightarrow> addr \<Rightarrow> val \<Rightarrow> state \<Rightarrow> state" where
  "finish_class c p child s =
     (let o' = length (heap s);
          s7 = (put (snd (alloc \<lparr>props = [], proto = Some p, callable = None\<rparr> s))
                  c ''prototype'' (Ref o'))\<lparr>extending := False\<rparr>
      in foldl (assign_step o' child) s7 (for_in_keys s7 child))"

text \<open>
  Line 167 and the \<^verbatim>\<open>return\<close>.
\<close>

definition register :: "addr \<Rightarrow> addr \<Rightarrow> state \<Rightarrow> res option" where
  "register c o' s =
     (case to_key (field s o' ''className'') of
        None \<Rightarrow> Some (Err Unmodelled s)
      | Some k \<Rightarrow> Some (Ok (Ref c) (s\<lparr>classes := (classes s)(k \<mapsto> Ref c)\<rparr>)))"

text \<open>
  \<^verbatim>\<open>_extendSingle\<close> from line 150 on, for the class object \<open>c\<close>.
\<close>

definition es_rest :: "callf \<Rightarrow> addr \<Rightarrow> val \<Rightarrow> val \<Rightarrow> state \<Rightarrow> res option" where
  "es_rest callf c this child s =
     call_then (construct callf (s\<lparr>extending := True\<rparr>) this []) (\<lambda>p s6.
       let s7 = (put s6 c ''prototype'' p)\<lparr>extending := False\<rparr> in
       call_then (assign_props c child (for_in_keys s7 child) s7) (\<lambda>u s8.
       get_then s8 (Ref c) ''prototype'' (\<lambda>pr.
       get_then s8 pr ''className'' (\<lambda>cn.
         case to_key cn of
           None \<Rightarrow> Some (Err Unmodelled s8)
         | Some k \<Rightarrow> Some (Ok (Ref c) (s8\<lparr>classes := (classes s8)(k \<mapsto> Ref c)\<rparr>))))))"

text \<open>
  The definition is an old object, and the class object is not on its prototype chain.
\<close>

definition unseen :: "state \<Rightarrow> addr \<Rightarrow> val \<Rightarrow> bool" where
  "unseen s c v \<longleftrightarrow> (\<forall>d. v = Ref d \<longrightarrow> d < length (heap s) \<and> c \<notin> set (proto_chain (heap s) d))"

text \<open>
  The state in which the loop of line 155 starts.
\<close>

definition pre_loop :: "addr \<Rightarrow> addr \<Rightarrow> state \<Rightarrow> state" where
  "pre_loop c p s =
     (put (snd (alloc \<lparr>props = [], proto = Some p, callable = None\<rparr> s))
        c ''prototype'' (Ref (length (heap s))))\<lparr>extending := False\<rparr>"

subsection \<open>Types and definitions\<close>

text \<open>
  The three functions shared by all Types are where the module put them, and
  \<^verbatim>\<open>Function.prototype\<close> inherits from \<^verbatim>\<open>Object.prototype\<close>.
\<close>

definition loaded :: "state \<Rightarrow> bool" where
  "loaded s \<longleftrightarrow>
     extendSingle_addr < length (heap s) \<and>
     proto (heap s ! function_proto) = Some object_proto \<and>
     (case callable (heap s ! extend_addr) of Some ExtendFn \<Rightarrow> True | _ \<Rightarrow> False) \<and>
     (case callable (heap s ! implement_addr) of Some ImplementFn \<Rightarrow> True | _ \<Rightarrow> False) \<and>
     (case callable (heap s ! extendSingle_addr) of Some ExtendSingleFn \<Rightarrow> True | _ \<Rightarrow> False)"

text \<open>
  A Type: a function object made by lines 129-141, carrying the three shared functions, whose
  \<^verbatim>\<open>prototype\<close> is an object with a primitive \<^verbatim>\<open>className\<close>.
\<close>

definition is_Type :: "state \<Rightarrow> addr \<Rightarrow> bool" where
  "is_Type s t \<longleftrightarrow>
     t < length (heap s) \<and> function_proto < t \<and>
     proto (heap s ! t) = Some function_proto \<and>
     (case callable (heap s ! t) of Some ClassFn \<Rightarrow> True | _ \<Rightarrow> False) \<and>
     (case field s t ''prototype'' of
        Ref p \<Rightarrow> p < length (heap s) \<and> to_key (field s p ''className'') \<noteq> None
      | _ \<Rightarrow> False) \<and>
     field s t ''extend'' = Ref extend_addr \<and>
     field s t ''_extendSingle'' = Ref extendSingle_addr \<and>
     field s t ''implement'' = Ref implement_addr"

text \<open>
  A reference points into the heap.
\<close>

definition bounded :: "state \<Rightarrow> val \<Rightarrow> bool" where
  "bounded s v \<longleftrightarrow> (case v of Ref a \<Rightarrow> a < length (heap s) | _ \<Rightarrow> True)"

text \<open>
  What one call of \<^verbatim>\<open>_extendSingle\<close> makes of the state \<open>s\<close>, for a receiver with prototype \<open>p\<close>
  and the definition \<open>child\<close>: the old objects are kept; the new Type is the first new object and
  is registered under \<open>nm\<close>; its prototype \<open>o'\<close> inherits from \<open>p\<close>, has the keys of the
  definition, and holds a wrapper wherever the definition and \<open>p\<close> both have a function.
\<close>

definition derived :: "state \<Rightarrow> addr \<Rightarrow> val \<Rightarrow> string \<Rightarrow> addr \<Rightarrow> state \<Rightarrow> bool" where
  "derived s p child nm o' s' \<longleftrightarrow>
     same_below (length (heap s)) s s' \<and> length (heap s) < o' \<and> o' < length (heap s') \<and>
     logged s' = logged s \<and> lang s' = lang s \<and> unsafeMixin s' = unsafeMixin s \<and>
     \<not> extending s' \<and> classes s' = (classes s)(nm \<mapsto> Ref (length (heap s))) \<and>
     loaded s' \<and> is_Type s' (length (heap s)) \<and>
     field s' (length (heap s)) ''prototype'' = Ref o' \<and>
     proto (heap s' ! o') = Some p \<and> callable (heap s' ! o') = None \<and>
     to_key (field s' o' ''className'') = Some nm \<and>
     (\<forall>k. k \<notin> set (for_in_keys s child) \<longrightarrow> field s' o' k = field s p k) \<and>
     (\<forall>m. m \<in> set (for_in_keys s child) \<and> bounded s (get_or s child m) \<and> bounded s (field s p m)
          \<longrightarrow> (if is_fun s (get_or s child m) \<and> is_fun s (field s p m)
               then (\<exists>w. field s' o' m = Ref w \<and> length (heap s) < w \<and> w < length (heap s')
                      \<and> callable (heap s' ! w) = Some (ParentFn (get_or s child m) (field s p m)))
               else field s' o' m = get_or s child m))"

text \<open>
  The method call \<^verbatim>\<open>recv.name(args)\<close>.
\<close>

definition invoke :: "nat \<Rightarrow> state \<Rightarrow> val \<Rightarrow> string \<Rightarrow> val list \<Rightarrow> res option" where
  "invoke n s recv name args = get_then s recv name (\<lambda>f. call n s f recv args)"

text \<open>
  The definitions the theorems on \<^verbatim>\<open>extend\<close> and \<^verbatim>\<open>implement\<close> cover: a Type, or a value that is no
  function and whose \<^verbatim>\<open>className\<close> is a primitive (the embedding has no registry key for an
  object). A function that is no Type would run the caller's code when instantiated.
\<close>

definition definition_ok :: "state \<Rightarrow> val \<Rightarrow> bool" where
  "definition_ok s v \<longleftrightarrow>
     bounded s v \<and>
     (if is_fun s v then (case v of Ref d \<Rightarrow> is_Type s d | _ \<Rightarrow> False)
      else to_key (get_or s v ''className'') \<noteq> None)"

text \<open>
  \<^verbatim>\<open>init\<close> and \<^verbatim>\<open>mixin\<close> of the prototype are those of the base class (lines 210-236).
\<close>

definition default_members :: "state \<Rightarrow> addr \<Rightarrow> bool" where
  "default_members s p \<longleftrightarrow>
     (case field s p ''init'' of
        Ref i \<Rightarrow> i < length (heap s) \<and>
                 (case callable (heap s ! i) of Some InitFn \<Rightarrow> True | _ \<Rightarrow> False)
      | _ \<Rightarrow> False) \<and>
     (case field s p ''mixin'' of
        Ref m \<Rightarrow> m < length (heap s) \<and>
                 (case callable (heap s ! m) of Some MixinFn \<Rightarrow> True | _ \<Rightarrow> False)
      | _ \<Rightarrow> False)"

subsection \<open>Iterated extension, as the specification words it\<close>

text \<open>
  The specification of \<^verbatim>\<open>implement\<close> on a list, following its words and not the loop of the
  source: the single-definition primitive is applied to \<open>T\<close> with the first item, then to the
  Type that call returned with the second item, and so on; the last Type is the result.
\<close>

primrec extend_each :: "callf \<Rightarrow> val list \<Rightarrow> state \<Rightarrow> val \<Rightarrow> res option" where
  "extend_each callf [] s T = Some (Ok T s)"
| "extend_each callf (d # ds) s T =
     get_then s T ''_extendSingle'' (\<lambda>m.
     call_then (callf s m T [d]) (\<lambda>T' s'. extend_each callf ds s' T'))"

subsection \<open>The test of \<^verbatim>\<open>mixin\<close>\<close>


subsection \<open>Chains of overrides\<close>

text \<open>
  Method bodies: \<^verbatim>\<open>function() { return r }\<close>, and below
  \<^verbatim>\<open>function() { return g(this.parent()) }\<close> for a function \<open>g\<close> on values.
\<close>

definition returns :: "val \<Rightarrow> val \<Rightarrow> val list \<Rightarrow> act" where
  "returns r this args = Ret r"

definition calls_parent :: "(val \<Rightarrow> val) \<Rightarrow> val \<Rightarrow> val list \<Rightarrow> act" where
  "calls_parent g this args = GetP this ''parent'' (\<lambda>p. CallF p this [] (\<lambda>r. Ret (g r)))"

text \<open>
  The value is what the loop of \<^verbatim>\<open>_extendSingle\<close> leaves after the definitions \<open>r0\<close>, then the
  \<open>gs\<close> (the last one first in the list): a wrapper around a wrapper, down to the first function.
\<close>

primrec wraps :: "state \<Rightarrow> val \<Rightarrow> (val \<Rightarrow> val) list \<Rightarrow> val \<Rightarrow> bool" where
  "wraps s r0 [] v \<longleftrightarrow>
     (\<exists>b. v = Ref b \<and> b < length (heap s) \<and> callable (heap s ! b) = Some (UserFn (returns r0)))"
| "wraps s r0 (g # gs) v \<longleftrightarrow>
     (\<exists>w f pv. v = Ref w \<and> w < length (heap s)
        \<and> callable (heap s ! w) = Some (ParentFn (Ref f) pv)
        \<and> f < length (heap s) \<and> callable (heap s ! f) = Some (UserFn (calls_parent g))
        \<and> wraps s r0 gs pv)"

text \<open>
  The object literal \<^verbatim>\<open>{m: function() {...}}\<close>.
\<close>

definition method_literal :: "string \<Rightarrow> (val \<Rightarrow> val list \<Rightarrow> act) \<Rightarrow> state \<Rightarrow> val \<times> state" where
  "method_literal m body s =
     (let (f, s1) = alloc_fun (UserFn body) s;
          (d, s2) = alloc \<lparr>props = [(m, Ref f, True)], proto = Some object_proto,
                            callable = None\<rparr> s1
      in (Ref d, s2))"

text \<open>
  \<^verbatim>\<open>T.extend({m: b1}).extend({m: b2})...\<close>
\<close>

primrec extend_overrides ::
  "nat \<Rightarrow> string \<Rightarrow> (val \<Rightarrow> val list \<Rightarrow> act) list \<Rightarrow> state \<Rightarrow> val \<Rightarrow> res option" where
  "extend_overrides n m [] s T = Some (Ok T s)"
| "extend_overrides n m (b # bs) s T =
     (let (d, s1) = method_literal m b s in
      call_then (invoke n s1 T ''extend'' [d]) (\<lambda>T' s2. extend_overrides n m bs s2 T'))"

text \<open>
  The Type made by these extensions is instantiated and \<open>m\<close> is called on the instance.
\<close>

definition override_program ::
  "nat \<Rightarrow> string \<Rightarrow> (val \<Rightarrow> val list \<Rightarrow> act) list \<Rightarrow> state \<Rightarrow> val \<Rightarrow> res option" where
  "override_program n m bodies s T =
     call_then (extend_overrides n m bodies s T) (\<lambda>T' s1.
     call_then (construct (call n) s1 T' []) (\<lambda>inst s2.
     invoke n s2 inst m []))"

text \<open>
  The invariant of the chain of extensions.
\<close>

definition overriding :: "state \<Rightarrow> addr \<Rightarrow> string \<Rightarrow> val \<Rightarrow> (val \<Rightarrow> val) list \<Rightarrow> bool" where
  "overriding s t m r0 hs \<longleftrightarrow>
     loaded s \<and> is_Type s t \<and> for_in_keys s (Ref object_proto) = [] \<and>
     (\<exists>o'. field s t ''prototype'' = Ref o' \<and> default_members s o'
           \<and> wraps s r0 hs (field s o' m))"

subsection \<open>States for the examples\<close>

text \<open>
  The state a run ends in (the given one, when it runs out of fuel).
\<close>

definition state_of :: "res option \<Rightarrow> state \<Rightarrow> state" where
  "state_of r d = (case r of Some (Ok v s) \<Rightarrow> s | Some (Err e s) \<Rightarrow> s | None \<Rightarrow> d)"


text \<open>
  The state the module body leaves: line 174 has run and \<^verbatim>\<open>Class\<close> exists.
\<close>

definition class_state :: "string \<Rightarrow> (string \<Rightarrow> val option) \<Rightarrow> state" where
  "class_state l tab = state_of (load_module 2 l tab) (module_state l tab)"

text \<open>The table of localized strings, with an English entry only.\<close>

definition strings_en :: "string \<Rightarrow> val option" where
  "strings_en l = (if l = ''en'' then Some (Str ''unsafe mixin'') else None)"

text \<open>The state in which the module body starts, and the state it leaves.\<close>

definition base_state :: state where
  "base_state = module_state ''en'' strings_en"

definition demo_state :: state where
  "demo_state = class_state ''en'' strings_en"

text \<open>A wrapper around a function that throws at once.\<close>

definition thrower :: "val \<Rightarrow> val list \<Rightarrow> act" where
  "thrower this args = Thr (Str ''boom'')"

definition throw_state :: state where
  "throw_state =
     snd (alloc_fun (ParentFn (Ref 19) (Ref 10)) (snd (alloc_fun (UserFn thrower) base_state)))"

text \<open>An object literal \<^verbatim>\<open>{k1: v1, ...}\<close>.\<close>

definition plain :: "(string \<times> val) list \<Rightarrow> obj" where
  "plain kvs = \<lparr>props = map (\<lambda>(k, v). (k, v, True)) kvs, proto = Some object_proto,
                callable = None\<rparr>"

text \<open>\<^verbatim>\<open>Object.prototype\<close> has no property of interest.\<close>

definition pristine :: "state \<Rightarrow> bool" where
  "pristine s \<longleftrightarrow>
     heap s \<noteq> [] \<and> props (heap s ! object_proto) = [] \<and> proto (heap s ! object_proto) = None"

text \<open>The loaded module with two object literals, \<^verbatim>\<open>{legs: 4}\<close> and \<^verbatim>\<open>{tail: true}\<close>.\<close>

definition pet_state :: state where
  "pet_state =
     snd (alloc (plain [(''tail'', Bool True)]) (snd (alloc (plain [(''legs'', Num 4)]) demo_state)))"




text \<open>\<^verbatim>\<open>'child-' + r\<close> for a string \<open>r\<close>.\<close>

definition prepend :: "string \<Rightarrow> val \<Rightarrow> val" where
  "prepend a r = (case r of Str x \<Rightarrow> Str (a @ x) | _ \<Rightarrow> Undefined)"

text \<open>
  A counter object \<^verbatim>\<open>{n: 0}\<close> and a Type \<^verbatim>\<open>Base = Class.extend({init: function() { counter.n++ }})\<close>.
\<close>

definition counter_addr :: addr where
  "counter_addr = length (heap demo_state)"

definition bump :: "val \<Rightarrow> val list \<Rightarrow> act" where
  "bump this args =
     GetP (Ref counter_addr) ''n'' (\<lambda>v.
     SetP (Ref counter_addr) ''n'' (case v of Num i \<Rightarrow> Num (i + 1) | _ \<Rightarrow> v) (Ret Undefined))"

definition counter_init :: state where
  "counter_init = snd (alloc (plain [(''n'', Num 0)]) demo_state)"

text \<open>
  The state after \<^verbatim>\<open>Base\<close> has been made, and the address of \<^verbatim>\<open>Base\<close>.
\<close>

definition counter_state :: state where
  "counter_state =
     state_of (case method_literal ''init'' bump counter_init of
                 (d, s1) \<Rightarrow> invoke 3 s1 (Ref 19) ''extend'' [d]) counter_init"

definition Base_addr :: addr where
  "Base_addr = Suc (Suc (Suc (Suc counter_addr)))"

section \<open>Properties\<close>

subsection \<open>Property reads\<close>

lemma get_val_Ref: "get_val s (Ref a) k = Inr (field s a k)"
  by (simp add: get_val_def field_def)

lemma get_then_Ref [simp]: "get_then s (Ref a) k cont = cont (field s a k)"
  by (simp add: get_then_def get_val_Ref)

lemma set_then_Ref [simp]:
  "a < length (heap s) \<Longrightarrow> set_then s (Ref a) k x cont = cont (put s a k x)"
  by (simp add: set_then_def set_val_def)

lemma call_then_simps [simp]:
  "call_then None cont = None"
  "call_then (Some (Err e s)) cont = Some (Err e s)"
  "call_then (Some (Ok v s)) cont = cont v s"
  by (simp_all add: call_then_def)

lemma proto_chain_le: "b \<in> set (proto_chain h a) \<Longrightarrow> b \<le> a"
proof (induction h a rule: proto_chain.induct)
  case (1 h a)
  from "1.prems" show ?case
    apply (subst (asm) proto_chain.simps)
    apply (auto split: if_splits option.splits dest!: "1.IH")
    done
qed

lemma proto_chain_lt_length: "b \<in> set (proto_chain h a) \<Longrightarrow> b < length h"
proof (induction h a rule: proto_chain.induct)
  case (1 h a)
  from "1.prems" show ?case
    apply (subst (asm) proto_chain.simps)
    apply (auto split: if_splits option.splits dest!: "1.IH")
    done
qed

lemma proto_chain_cong:
  "length h' = length h \<Longrightarrow> \<forall>b \<le> a. b < length h \<longrightarrow> proto (h' ! b) = proto (h ! b)
   \<Longrightarrow> proto_chain h' a = proto_chain h a"
proof (induction h a rule: proto_chain.induct)
  case (1 h a)
  show ?case
  proof (cases "a < length h")
    case False
    with "1.prems" show ?thesis by (simp add: proto_chain.simps)
  next
    case True
    show ?thesis
    proof (cases "proto (h ! a)")
      case None
      with True "1.prems" show ?thesis
        by (subst proto_chain.simps, subst (2) proto_chain.simps) simp
    next
      case (Some p)
      show ?thesis
      proof (cases "p < a")
        case lt: True
        from "1.prems" lt have "proto_chain h' p = proto_chain h p"
          by (intro "1.IH"[OF True Some lt]) auto
        with True Some lt "1.prems" show ?thesis
          by (subst proto_chain.simps, subst (2) proto_chain.simps) simp
      next
        case False
        with True Some "1.prems" show ?thesis
          by (subst proto_chain.simps, subst (2) proto_chain.simps) simp
      qed
    qed
  qed
qed

lemma proto_chain_append:
  "a < length h \<Longrightarrow> proto_chain (h @ ext) a = proto_chain h a"
proof (induction h a rule: proto_chain.induct)
  case (1 h a)
  show ?case
  proof (cases "proto (h ! a)")
    case None
    with "1.prems" show ?thesis
      by (subst proto_chain.simps, subst (2) proto_chain.simps) (simp add: nth_append)
  next
    case (Some p)
    show ?thesis
    proof (cases "p < a")
      case lt: True
      from "1.prems" lt have "proto_chain (h @ ext) p = proto_chain h p"
        by (intro "1.IH"[OF "1.prems" Some lt]) auto
      with Some lt "1.prems" show ?thesis
        by (subst proto_chain.simps, subst (2) proto_chain.simps) (simp add: nth_append)
    next
      case False
      with Some "1.prems" show ?thesis
        by (subst proto_chain.simps, subst (2) proto_chain.simps) (simp add: nth_append)
    qed
  qed
qed

lemma first_own_cong:
  "\<forall>b \<in> set as. own_val (h' ! b) k = own_val (h ! b) k \<Longrightarrow> first_own h' as k = first_own h as k"
  by (induction as) (auto split: option.splits)

lemma lookup_append:
  "a < length h \<Longrightarrow> lookup (h @ ext) a k = lookup h a k"
  unfolding lookup_def
  by (simp add: proto_chain_append)
     (rule first_own_cong, auto simp: nth_append dest: proto_chain_lt_length)

subsection \<open>Property writes\<close>

lemma put_simps [simp]:
  "length (heap (put s a k x)) = length (heap s)"
  "extending (put s a k x) = extending s"
  "classes (put s a k x) = classes s"
  "logged (put s a k x) = logged s"
  "lang (put s a k x) = lang s"
  "unsafeMixin (put s a k x) = unsafeMixin s"
  by (simp_all add: put_def)

lemma put_beyond: "\<not> a < length (heap s) \<Longrightarrow> put s a k x = s"
  by (simp add: put_def list_update_beyond)

lemma put_proto [simp]: "proto (heap (put s a k x) ! b) = proto (heap s ! b)"
  by (cases "a < length (heap s)"; cases "a = b") (simp_all add: put_def list_update_beyond)

lemma put_callable [simp]: "callable (heap (put s a k x) ! b) = callable (heap s ! b)"
  by (cases "a < length (heap s)"; cases "a = b") (simp_all add: put_def list_update_beyond)

lemma put_props_other: "b \<noteq> a \<Longrightarrow> props (heap (put s a k x) ! b) = props (heap s ! b)"
  by (simp add: put_def)

lemma put_nth_other [simp]: "b \<noteq> a \<Longrightarrow> heap (put s a k x) ! b = heap s ! b"
  by (simp add: put_def)

lemma put_props_same:
  "a < length (heap s) \<Longrightarrow> props (heap (put s a k x) ! a) = set_own (props (heap s ! a)) k x"
  by (simp add: put_def)

lemma put_extending [simp]: "put (s\<lparr>extending := b\<rparr>) a k x = (put s a k x)\<lparr>extending := b\<rparr>"
  by (simp add: put_def)

lemma map_of_set_own:
  "map_option fst (map_of (set_own ps k x) k') =
     (if k' = k then Some x else map_option fst (map_of ps k'))"
  by (induction ps) auto

lemma own_val_put:
  "a < length (heap s) \<Longrightarrow>
   own_val (heap (put s a k x) ! b) k' =
     (if b = a \<and> k' = k then Some x else own_val (heap s ! b) k')"
  by (cases "b = a") (simp_all add: own_val_def put_props_same map_of_set_own put_props_other)

lemma proto_chain_put [simp]: "proto_chain (heap (put s a k x)) b = proto_chain (heap s) b"
  by (rule proto_chain_cong) simp_all

lemma lookup_put_other_key:
  "k' \<noteq> k \<Longrightarrow> lookup (heap (put s a k x)) b k' = lookup (heap s) b k'"
proof (cases "a < length (heap s)")
  case True
  assume "k' \<noteq> k"
  with True show ?thesis
    unfolding lookup_def by (simp) (rule first_own_cong, simp add: own_val_put)
next
  case False
  then show ?thesis by (simp add: put_beyond)
qed

lemma lookup_put_not_in_chain:
  "a \<notin> set (proto_chain (heap s) b) \<Longrightarrow> lookup (heap (put s a k x)) b k' = lookup (heap s) b k'"
  unfolding lookup_def
  by simp (rule first_own_cong, metis put_nth_other)

lemma lookup_put_below:
  "b < a \<Longrightarrow> lookup (heap (put s a k x)) b k' = lookup (heap s) b k'"
  by (rule lookup_put_not_in_chain) (auto dest: proto_chain_le)

lemma proto_chain_hd: "a < length h \<Longrightarrow> \<exists>as. proto_chain h a = a # as"
  by (subst proto_chain.simps) simp

lemma lookup_put_same:
  "a < length (heap s) \<Longrightarrow> lookup (heap (put s a k x)) a k = Some x"
proof -
  assume a: "a < length (heap s)"
  then obtain as where "proto_chain (heap s) a = a # as"
    using proto_chain_hd by blast
  with a show ?thesis
    unfolding lookup_def by (simp add: own_val_put)
qed

lemma field_put_other_key [simp]: "k' \<noteq> k \<Longrightarrow> field (put s a k x) b k' = field s b k'"
  by (simp add: field_def lookup_put_other_key)

lemma field_put_below [simp]: "b < a \<Longrightarrow> field (put s a k x) b k' = field s b k'"
  by (simp add: field_def lookup_put_below)

lemma field_put_same [simp]: "a < length (heap s) \<Longrightarrow> field (put s a k x) a k = x"
  by (simp add: field_def lookup_put_same)


lemma is_fun_extending [simp]: "is_fun (s\<lparr>extending := b\<rparr>) v = is_fun s v"
  by (simp add: is_fun_def split: val.splits)

lemma field_extending [simp]: "field (s\<lparr>extending := b\<rparr>) a k = field s a k"
  by (simp add: field_def)

lemma field_classes [simp]: "field (s\<lparr>classes := c\<rparr>) a k = field s a k"
  by (simp add: field_def)

lemma field_logged [simp]: "field (s\<lparr>logged := c\<rparr>) a k = field s a k"
  by (simp add: field_def)

lemma for_in_keys_extending [simp]: "for_in_keys (s\<lparr>extending := b\<rparr>) v = for_in_keys s v"
  by (simp add: for_in_keys_def split: val.splits)

lemma set_own_idem: "map_of ps k = Some (x, e) \<Longrightarrow> set_own ps k x = ps"
  by (induction ps) (auto split: if_splits)

lemma set_own_twice: "set_own (set_own ps k x) k y = set_own ps k y"
  by (induction ps) auto

lemma put_twice: "put (put s a k x) a k y = put s a k y"
  by (cases "a < length (heap s)") (simp_all add: put_def set_own_twice list_update_beyond)

subsection \<open>Old objects are kept\<close>

lemma lookup_take: "a < n \<Longrightarrow> n \<le> length h \<Longrightarrow> lookup (take n h) a k = lookup h a k"
  using lookup_append[of a "take n h" "drop n h" k] by simp

lemma proto_chain_take: "a < n \<Longrightarrow> n \<le> length h \<Longrightarrow> proto_chain (take n h) a = proto_chain h a"
  using proto_chain_append[of a "take n h" "drop n h"] by simp

lemma lookup_same_below:
  "take n h' = take n h \<Longrightarrow> a < n \<Longrightarrow> n \<le> length h \<Longrightarrow> n \<le> length h' \<Longrightarrow>
   lookup h' a k = lookup h a k"
  using lookup_take[of a n h' k] lookup_take[of a n h k] by simp

lemma proto_chain_same_below:
  "take n h' = take n h \<Longrightarrow> a < n \<Longrightarrow> n \<le> length h \<Longrightarrow> n \<le> length h' \<Longrightarrow>
   proto_chain h' a = proto_chain h a"
  using proto_chain_take[of a n h'] proto_chain_take[of a n h] by simp

lemma nth_same_below:
  "take n h' = take n h \<Longrightarrow> a < n \<Longrightarrow> h' ! a = h ! a"
  using nth_take[of a n h'] nth_take[of a n h] by simp

lemma chain_keys_cong:
  "\<forall>b \<in> set as. props (h' ! b) = props (h ! b) \<Longrightarrow> chain_keys h' as seen = chain_keys h as seen"
  by (induction as arbitrary: seen) auto

lemma same_below_refl [simp]: "n \<le> length (heap s) \<Longrightarrow> same_below n s s"
  by (simp add: same_below_def)

lemma same_below_trans: "same_below n s s' \<Longrightarrow> same_below n s' s'' \<Longrightarrow> same_below n s s''"
  by (simp add: same_below_def)

lemma same_below_mono: "same_below n s s' \<Longrightarrow> m \<le> n \<Longrightarrow> same_below m s s'"
proof -
  assume sb: "same_below n s s'" and mn: "m \<le> n"
  have "take m (heap s') = take m (take n (heap s'))" using mn by (simp add: min_def)
  also have "\<dots> = take m (take n (heap s))" using sb by (simp add: same_below_def)
  also have "\<dots> = take m (heap s)" using mn by (simp add: min_def)
  finally show ?thesis using sb mn by (simp add: same_below_def)
qed

lemma same_below_field: "same_below n s s' \<Longrightarrow> a < n \<Longrightarrow> field s' a k = field s a k"
  using lookup_same_below[of n "heap s'" "heap s" a k] by (simp add: same_below_def field_def)

lemma same_below_nth: "same_below n s s' \<Longrightarrow> a < n \<Longrightarrow> heap s' ! a = heap s ! a"
  using nth_same_below[of n "heap s'" "heap s" a] by (simp add: same_below_def)

lemma same_below_is_fun: "same_below n s s' \<Longrightarrow> a < n \<Longrightarrow> is_fun s' (Ref a) = is_fun s (Ref a)"
proof -
  assume sb: "same_below n s s'" and a: "a < n"
  then have "a < length (heap s)" "a < length (heap s')" "heap s' ! a = heap s ! a"
    using nth_same_below[of n "heap s'" "heap s" a] by (simp_all add: same_below_def)
  then show ?thesis by (simp add: is_fun_def)
qed

lemma same_below_keys:
  "same_below n s s' \<Longrightarrow> a < n \<Longrightarrow> for_in_keys s' (Ref a) = for_in_keys s (Ref a)"
proof -
  assume sb: "same_below n s s'" and a: "a < n"
  then have pc: "proto_chain (heap s') a = proto_chain (heap s) a"
    using proto_chain_same_below[of n "heap s'" "heap s" a] by (simp add: same_below_def)
  have "\<forall>b \<in> set (proto_chain (heap s) a). props (heap s' ! b) = props (heap s ! b)"
    using sb a by (auto dest!: proto_chain_le simp: same_below_nth)
  with pc show ?thesis
    by (simp add: for_in_keys_def chain_keys_cong)
qed

lemma same_below_put: "n \<le> a \<Longrightarrow> n \<le> length (heap s) \<Longrightarrow> same_below n s (put s a k x)"
  by (simp add: same_below_def put_def)

lemma same_below_alloc: "n \<le> length (heap s) \<Longrightarrow> same_below n s (snd (alloc ob s))"
  by (simp add: same_below_def alloc_def)

lemma same_below_alloc_fun: "n \<le> length (heap s) \<Longrightarrow> same_below n s (snd (alloc_fun c s))"
  by (simp add: same_below_def alloc_fun_def Let_def)

lemma same_below_upd [simp]:
  "same_below n s (s'\<lparr>extending := b\<rparr>) = same_below n s s'"
  "same_below n s (s'\<lparr>classes := cl\<rparr>) = same_below n s s'"
  "same_below n s (s'\<lparr>logged := lg\<rparr>) = same_below n s s'"
  "same_below n (s\<lparr>extending := b\<rparr>) s' = same_below n s s'"
  by (simp_all add: same_below_def)

text \<open>Allocation adds objects at the end of the heap.\<close>

lemma alloc_simps [simp]:
  "fst (alloc ob s) = length (heap s)"
  "heap (snd (alloc ob s)) = heap s @ [ob]"
  "extending (snd (alloc ob s)) = extending s"
  "classes (snd (alloc ob s)) = classes s"
  "logged (snd (alloc ob s)) = logged s"
  "lang (snd (alloc ob s)) = lang s"
  "unsafeMixin (snd (alloc ob s)) = unsafeMixin s"
  by (simp_all add: alloc_def)

lemma alloc_fun_simps [simp]:
  "fst (alloc_fun c s) = length (heap s)"
  "length (heap (snd (alloc_fun c s))) = Suc (Suc (length (heap s)))"
  "extending (snd (alloc_fun c s)) = extending s"
  "classes (snd (alloc_fun c s)) = classes s"
  "logged (snd (alloc_fun c s)) = logged s"
  "lang (snd (alloc_fun c s)) = lang s"
  "unsafeMixin (snd (alloc_fun c s)) = unsafeMixin s"
  "callable (heap (snd (alloc_fun c s)) ! length (heap s)) = Some c"
  "proto (heap (snd (alloc_fun c s)) ! length (heap s)) = Some function_proto"
  by (simp_all add: alloc_fun_def Let_def nth_append)

lemma field_alloc_new:
  "p < length (heap s) \<Longrightarrow>
   field (snd (alloc \<lparr>props = [], proto = Some p, callable = None\<rparr> s)) (length (heap s)) k
     = field s p k"
proof -
  assume p: "p < length (heap s)"
  let ?h = "heap s @ [\<lparr>props = [], proto = Some p, callable = None\<rparr>]"
  have "proto_chain ?h (length (heap s)) = length (heap s) # proto_chain ?h p"
    using p by (subst proto_chain.simps) simp
  then have "lookup ?h (length (heap s)) k = lookup ?h p k"
    by (simp add: lookup_def own_val_def)
  also have "\<dots> = lookup (heap s) p k"
    using p by (rule lookup_append)
  finally show ?thesis by (simp add: field_def)
qed

lemma field_old_alloc [simp]:
  "a < length (heap s) \<Longrightarrow> field (snd (alloc ob s)) a k = field s a k"
  by (simp add: field_def lookup_append)

lemma field_old_alloc_fun [simp]:
  "a < length (heap s) \<Longrightarrow> field (snd (alloc_fun c s)) a k = field s a k"
  by (simp add: field_def alloc_fun_def Let_def lookup_append)

lemma is_fun_Ref: "is_fun s (Ref a) \<longleftrightarrow> a < length (heap s) \<and> callable (heap s ! a) \<noteq> None"
  by (auto simp: is_fun_def split: option.splits)

lemma is_fun_not_Ref [simp]:
  "\<not> is_fun s Undefined" "\<not> is_fun s Null" "\<not> is_fun s (Bool b)" "\<not> is_fun s (Num i)"
  "\<not> is_fun s (Str cs)" "\<not> is_fun s (Arr vs)"
  by (simp_all add: is_fun_def)

text \<open>Calling a function value, by the code it holds.\<close>

lemma call_code:
  "a < length (heap s) \<Longrightarrow> callable (heap s ! a) = Some c \<Longrightarrow>
   call (Suc n) s (Ref a) this args =
     (case c of
        EmptyFn \<Rightarrow> Some (Ok Undefined s)
      | ClassFn \<Rightarrow> class_call (call n) s this args
      | ExtendFn \<Rightarrow> extend_call (call n) s this args
      | ImplementFn \<Rightarrow> implement_call (call n) s this args
      | ExtendSingleFn \<Rightarrow> extendSingle_call (call n) s this args
      | ParentFn childFunction parentFunction \<Rightarrow>
          parent_call (call n) childFunction parentFunction s this args
      | InitFn \<Rightarrow> init_call (call n) s this args
      | MixinFn \<Rightarrow> mixin_call s this args
      | BindGameFn \<Rightarrow> bindGame_call (call n) s this args
      | SerializeFn \<Rightarrow> serialize_call s this
      | UserFn body \<Rightarrow> run_act (call n) (body this args) s)"
  by (simp add: is_fun_def)

lemma call_not_fun: "\<not> is_fun s f \<Longrightarrow> call (Suc n) s f this args = Some (Err TypeError s)"
  by simp

declare call.simps(2) [simp del]

lemma call_inert:
  "inert s f \<Longrightarrow> extending s \<Longrightarrow> call (Suc n) s (Ref f) this args = Some (Ok Undefined s)"
proof -
  assume i: "inert s f" and e: "extending s"
  from i have f: "f < length (heap s)" by (simp add: inert_def)
  from i consider "callable (heap s ! f) = Some ClassFn" | "callable (heap s ! f) = Some EmptyFn"
    by (auto simp: inert_def split: option.splits code.splits)
  then show ?thesis
  proof cases
    case 1
    with f e show ?thesis by (simp add: call_code class_call_def)
  next
    case 2
    with f show ?thesis by (simp add: call_code)
  qed
qed

lemma inert_is_fun: "inert s f \<Longrightarrow> is_fun s (Ref f)"
  by (auto simp: inert_def is_fun_def split: option.splits)

lemma construct_inert:
  assumes "inert s f" "extending s" "field s f ''prototype'' = Ref p"
  shows "construct (call (Suc n)) s (Ref f) args =
           Some (Ok (Ref (length (heap s)))
             (snd (alloc \<lparr>props = [], proto = Some p, callable = None\<rparr> s)))"
proof -
  let ?s1 = "snd (alloc \<lparr>props = [], proto = Some p, callable = None\<rparr> s)"
  have "inert ?s1 f" using assms(1) by (auto simp: inert_def nth_append)
  moreover have "extending ?s1" using assms(2) by simp
  ultimately have "call (Suc n) ?s1 (Ref f) (Ref (length (heap s))) args = Some (Ok Undefined ?s1)"
    by (rule call_inert)
  then show ?thesis
    using assms inert_is_fun[OF assms(1)]
    by (simp add: construct_def split_def Let_def is_object_def)
qed

subsection \<open>The loop over the keys of a definition\<close>

lemma get_or_Ref [simp]: "get_or s (Ref a) k = field s a k"
  by (simp add: get_or_def get_val_Ref)

lemma get_then_get_or:
  "v \<noteq> Undefined \<Longrightarrow> v \<noteq> Null \<Longrightarrow> get_then s v k cont = cont (get_or s v k)"
  by (cases v) (simp_all add: get_then_def get_or_def get_val_def)

lemma assign_step_length: "length (heap s) \<le> length (heap (assign_step o' child s key))"
  by (simp add: assign_step_def Let_def)

lemma assign_step_same_below:
  "o' \<le> length (heap s) \<Longrightarrow> same_below o' s (assign_step o' child s key)"
  unfolding assign_step_def Let_def
  by (auto intro!: same_below_put same_below_trans[OF same_below_alloc_fun[of o' s] same_below_put])

lemma assign_step_fields [simp]:
  "extending (assign_step o' child s key) = extending s"
  "classes (assign_step o' child s key) = classes s"
  "logged (assign_step o' child s key) = logged s"
  "lang (assign_step o' child s key) = lang s"
  "unsafeMixin (assign_step o' child s key) = unsafeMixin s"
  by (simp_all add: assign_step_def Let_def)

lemma assign_props_Cons:
  assumes "o' < length (heap s)" "field s c ''prototype'' = Ref o'"
    and "child \<noteq> Undefined" "child \<noteq> Null"
  shows "assign_props c child (key # keys) s =
           assign_props c child keys (assign_step o' child s key)"
proof (cases "is_fun s (get_or s child key) \<and> is_fun s (field s o' key)")
  case True
  then have "assign_step o' child s key =
      put (snd (alloc_fun (ParentFn (get_or s child key) (field s o' key)) s)) o' key
        (Ref (length (heap s)))"
    by (simp add: assign_step_def)
  with True assms show ?thesis
    by (simp add: get_then_get_or createParent_def split_def)
next
  case False
  then have "assign_step o' child s key = put s o' key (get_or s child key)"
    by (auto simp add: assign_step_def)
  with False assms show ?thesis
    by (auto simp add: get_then_get_or)
qed

lemma assign_props_fold:
  assumes "c < o'" "o' < length (heap s)" "field s c ''prototype'' = Ref o'"
    and "keys \<noteq> [] \<longrightarrow> child \<noteq> Undefined \<and> child \<noteq> Null"
  shows "assign_props c child keys s = Some (Ok Undefined (foldl (assign_step o' child) s keys))"
  using assms
proof (induction keys arbitrary: s)
  case Nil
  then show ?case by simp
next
  case (Cons key keys)
  let ?s' = "assign_step o' child s key"
  have len: "o' < length (heap ?s')"
    using Cons.prems(2) assign_step_length[of s o' child key] by simp
  have "same_below o' s ?s'"
    using Cons.prems(2) by (simp add: assign_step_same_below)
  then have fld: "field ?s' c ''prototype'' = Ref o'"
    using Cons.prems(1,3) by (simp add: same_below_field)
  have IH: "assign_props c child keys ?s' = Some (Ok Undefined (foldl (assign_step o' child) ?s' keys))"
    using Cons.IH[OF Cons.prems(1) len fld] Cons.prems(4) by simp
  have ne: "child \<noteq> Undefined" "child \<noteq> Null" using Cons.prems(4) by simp_all
  show ?case
    using assign_props_Cons[OF Cons.prems(2,3) ne] IH by simp
qed

lemma lookup_unfold:
  "a < length h \<Longrightarrow>
   lookup h a k =
     (case own_val (h ! a) k of
        Some v \<Rightarrow> Some v
      | None \<Rightarrow> (case proto (h ! a) of
                  None \<Rightarrow> None
                | Some p \<Rightarrow> if p < a then lookup h p k else None))"
  unfolding lookup_def
  by (subst proto_chain.simps) (simp split: option.splits)

lemma field_own:
  "a < length (heap s) \<Longrightarrow> own_val (heap s ! a) k = Some v \<Longrightarrow> field s a k = v"
  by (simp add: field_def lookup_unfold)

lemma field_inherit:
  "a < length (heap s) \<Longrightarrow> own_val (heap s ! a) k = None \<Longrightarrow> proto (heap s ! a) = Some p
   \<Longrightarrow> p < a \<Longrightarrow> field s a k = field s p k"
  by (simp add: field_def lookup_unfold)

lemma alloc_fun_nth_old [simp]:
  "a < length (heap s) \<Longrightarrow> heap (snd (alloc_fun c s)) ! a = heap s ! a"
  by (simp add: alloc_fun_def Let_def nth_append)

lemma alloc_nth_old [simp]:
  "a < length (heap s) \<Longrightarrow> heap (snd (alloc ob s)) ! a = heap s ! a"
  by (simp add: nth_append)

text \<open>One step of the loop, seen from the new prototype object.\<close>

lemma assign_step_nth_other:
  "a < length (heap s) \<Longrightarrow> a \<noteq> o' \<Longrightarrow> heap (assign_step o' child s key) ! a = heap s ! a"
  by (simp add: assign_step_def Let_def)

lemma assign_step_proto:
  "o' < length (heap s) \<Longrightarrow> proto (heap (assign_step o' child s key) ! o') = proto (heap s ! o')"
  by (simp add: assign_step_def Let_def)

lemma assign_step_callable:
  "o' < length (heap s) \<Longrightarrow>
   callable (heap (assign_step o' child s key) ! o') = callable (heap s ! o')"
  by (simp add: assign_step_def Let_def)

lemma assign_step_own_other:
  "o' < length (heap s) \<Longrightarrow> k \<noteq> key \<Longrightarrow>
   own_val (heap (assign_step o' child s key) ! o') k = own_val (heap s ! o') k"
  by (simp add: assign_step_def Let_def own_val_put)

lemma assign_step_own_raw:
  "o' < length (heap s) \<Longrightarrow> \<not> (is_fun s (get_or s child key) \<and> is_fun s (field s o' key)) \<Longrightarrow>
   own_val (heap (assign_step o' child s key) ! o') key = Some (get_or s child key)"
  by (auto simp add: assign_step_def Let_def own_val_put)

lemma assign_step_own_wrapped:
  assumes "o' < length (heap s)" "is_fun s (get_or s child key)" "is_fun s (field s o' key)"
  shows "own_val (heap (assign_step o' child s key) ! o') key = Some (Ref (length (heap s)))"
    and "callable (heap (assign_step o' child s key) ! length (heap s)) =
           Some (ParentFn (get_or s child key) (field s o' key))"
    and "length (heap s) < length (heap (assign_step o' child s key))"
  using assms by (simp_all add: assign_step_def Let_def own_val_put)

text \<open>The whole loop.\<close>

lemma fold_length: "length (heap s) \<le> length (heap (foldl (assign_step o' child) s keys))"
proof (induction keys arbitrary: s)
  case Nil
  show ?case by simp
next
  case (Cons k ks)
  have "length (heap s) \<le> length (heap (assign_step o' child s k))"
    by (rule assign_step_length)
  also have "\<dots> \<le> length (heap (foldl (assign_step o' child) (assign_step o' child s k) ks))"
    by (rule Cons.IH)
  finally show ?case by simp
qed

lemma fold_same_below:
  "o' \<le> length (heap s) \<Longrightarrow> same_below o' s (foldl (assign_step o' child) s keys)"
proof (induction keys arbitrary: s)
  case Nil
  then show ?case by simp
next
  case (Cons k ks)
  have 1: "same_below o' s (assign_step o' child s k)"
    using Cons.prems by (rule assign_step_same_below)
  have "o' \<le> length (heap (assign_step o' child s k))"
    using Cons.prems assign_step_length[of s o' child k] by simp
  then have 2: "same_below o' (assign_step o' child s k)
                  (foldl (assign_step o' child) (assign_step o' child s k) ks)"
    by (rule Cons.IH)
  from same_below_trans[OF 1 2] show ?case by simp
qed

lemma fold_fields [simp]:
  "extending (foldl (assign_step o' child) s keys) = extending s"
  "classes (foldl (assign_step o' child) s keys) = classes s"
  "logged (foldl (assign_step o' child) s keys) = logged s"
  "lang (foldl (assign_step o' child) s keys) = lang s"
  "unsafeMixin (foldl (assign_step o' child) s keys) = unsafeMixin s"
  by (induction keys arbitrary: s) simp_all

lemma fold_nth_other:
  "a < length (heap s) \<Longrightarrow> a \<noteq> o' \<Longrightarrow>
   heap (foldl (assign_step o' child) s keys) ! a = heap s ! a"
proof (induction keys arbitrary: s)
  case Nil
  show ?case by simp
next
  case (Cons k ks)
  have "a < length (heap (assign_step o' child s k))"
    using Cons.prems(1) assign_step_length[of s o' child k] by simp
  from Cons.IH[OF this Cons.prems(2)] Cons.prems show ?case
    by (simp add: assign_step_nth_other)
qed

lemma fold_proto_callable:
  "o' < length (heap s) \<Longrightarrow>
   proto (heap (foldl (assign_step o' child) s keys) ! o') = proto (heap s ! o') \<and>
   callable (heap (foldl (assign_step o' child) s keys) ! o') = callable (heap s ! o')"
proof (induction keys arbitrary: s)
  case Nil
  show ?case by simp
next
  case (Cons k ks)
  have "o' < length (heap (assign_step o' child s k))"
    using Cons.prems assign_step_length[of s o' child k] by simp
  from Cons.IH[OF this] Cons.prems show ?case
    by (simp add: assign_step_proto assign_step_callable)
qed

lemma fold_own_other:
  "o' < length (heap s) \<Longrightarrow> k \<notin> set keys \<Longrightarrow>
   own_val (heap (foldl (assign_step o' child) s keys) ! o') k = own_val (heap s ! o') k"
proof (induction keys arbitrary: s)
  case Nil
  show ?case by simp
next
  case (Cons k' ks)
  have "o' < length (heap (assign_step o' child s k'))"
    using Cons.prems(1) assign_step_length[of s o' child k'] by simp
  from Cons.IH[OF this] Cons.prems show ?case
    by (simp add: assign_step_own_other)
qed

subsection \<open>\<^verbatim>\<open>serialize\<close>, the parent wrapper and \<^verbatim>\<open>_bindGame\<close>\<close>


lemma get_or_put_other_key [simp]: "k' \<noteq> k \<Longrightarrow> get_or (put s a k x) v k' = get_or s v k'"
  by (cases v) (simp_all add: get_or_def get_val_def lookup_put_other_key)

text \<open>
  Claim C8. On every instance \<open>a\<close>, a call of \<^verbatim>\<open>serialize\<close> returns a fresh plain object
  (its prototype is \<^verbatim>\<open>Object.prototype\<close>, it is not callable) whose own keys are exactly
  \<^verbatim>\<open>id\<close>, \<^verbatim>\<open>clientID\<close> and \<^verbatim>\<open>className\<close>, holding the values the instance has for them at
  the time of the call; nothing else in the state changes.
\<close>

theorem serialize_snapshot:
  assumes "f < length (heap s)" and "callable (heap s ! f) = Some SerializeFn"
  shows "call (Suc n) s (Ref f) (Ref a) args =
           Some (Ok (Ref (length (heap s)))
             (s\<lparr>heap := heap s @
                 [\<lparr>props = [(''id'', field s a ''id'', True),
                            (''clientID'', field s a ''clientID'', True),
                            (''className'', field s a ''className'', True)],
                   proto = Some object_proto, callable = None\<rparr>]\<rparr>))"
  using assms by (simp add: call_code serialize_call_def alloc_def)

text \<open>
  Claim C9. When the child implementation of a wrapper built by \<^verbatim>\<open>createParent\<close> throws, the
  wrapper ends with the same exception in the state the child left: the restoring assignment of
  line 26 is not run. So if the child does not touch \<^verbatim>\<open>this.parent\<close> itself, the property is
  left holding the parent implementation.
\<close>

theorem parent_left_bound_on_throw:
  assumes "w < length (heap s)"
    and "callable (heap s ! w) = Some (ParentFn childFunction parentFunction)"
    and "a < length (heap s)"
    and "call n (put s a ''parent'' parentFunction) childFunction (Ref a) args = Some (Err e s')"
    and "field s' a ''parent'' = field (put s a ''parent'' parentFunction) a ''parent''"
  shows "call (Suc n) s (Ref w) (Ref a) args = Some (Err e s') \<and>
         field s' a ''parent'' = parentFunction"
  using assms by (simp add: call_code parent_call_def)

lemma implement_loop_drop:
  "i \<le> length ds \<Longrightarrow> implement_loop callf ds s T i = extend_each callf (drop i ds) s T"
proof (induction "length ds - i" arbitrary: i s T)
  case 0
  then show ?case by (subst implement_loop.simps) simp
next
  case (Suc n)
  then have i: "i < length ds" by simp
  then have d: "drop i ds = ds ! i # drop (Suc i) ds"
    by (simp add: Cons_nth_drop_Suc)
  have IH: "\<And>s T. implement_loop callf ds s T (Suc i) = extend_each callf (drop (Suc i) ds) s T"
    using Suc.hyps(1)[of "Suc i"] Suc.hyps(2) i by simp
  show ?case
    apply (subst implement_loop.simps)
    apply (simp add: i d IH get_then_def call_then_def split: sum.splits option.splits res.splits)
    done
qed

lemma implement_call_Arr:
  "implement_call callf s this [Arr ds] = extend_each callf ds s this"
  by (simp add: implement_call_def arg_at_def implement_loop_drop)


subsection \<open>Reading old objects in a later state\<close>

lemma get_or_same_below:
  "same_below n s s' \<Longrightarrow> \<forall>d. child = Ref d \<longrightarrow> d < n \<Longrightarrow> get_or s' child k = get_or s child k"
proof (cases child)
  case (Ref d)
  assume "same_below n s s'" "\<forall>d. child = Ref d \<longrightarrow> d < n"
  with Ref show ?thesis by (simp add: same_below_field)
qed (simp_all add: get_or_def get_val_def)

lemma is_fun_same_below:
  "same_below n s s' \<Longrightarrow> \<forall>d. v = Ref d \<longrightarrow> d < n \<Longrightarrow> is_fun s' v = is_fun s v"
proof (cases v)
  case (Ref d)
  assume "same_below n s s'" "\<forall>d. v = Ref d \<longrightarrow> d < n"
  with Ref show ?thesis by (simp add: same_below_is_fun)
qed simp_all

lemma for_in_keys_same_below:
  "same_below n s s' \<Longrightarrow> \<forall>d. v = Ref d \<longrightarrow> d < n \<Longrightarrow> for_in_keys s' v = for_in_keys s v"
proof (cases v)
  case (Ref d)
  assume "same_below n s s'" "\<forall>d. v = Ref d \<longrightarrow> d < n"
  with Ref show ?thesis by (simp add: same_below_keys)
qed (simp_all add: for_in_keys_def)

text \<open>What the loop leaves at one key of the new prototype.\<close>

lemma fold_own_key:
  assumes "o' < length (heap s)" "proto (heap s ! o') = Some p" "p < o'"
    and "\<forall>d. child = Ref d \<longrightarrow> d < o'"
    and "distinct keys" "m \<in> set keys"
    and "own_val (heap s ! o') m = None"
    and "\<forall>f. get_or s child m = Ref f \<longrightarrow> f < o'"
    and "\<forall>b. field s p m = Ref b \<longrightarrow> b < o'"
  shows "if is_fun s (get_or s child m) \<and> is_fun s (field s p m)
         then (\<exists>w. own_val (heap (foldl (assign_step o' child) s keys) ! o') m = Some (Ref w)
                 \<and> o' < w \<and> w < length (heap (foldl (assign_step o' child) s keys))
                 \<and> callable (heap (foldl (assign_step o' child) s keys) ! w)
                     = Some (ParentFn (get_or s child m) (field s p m)))
         else own_val (heap (foldl (assign_step o' child) s keys) ! o') m
                = Some (get_or s child m)"
  using assms
proof (induction keys arbitrary: s)
  case Nil
  then show ?case by simp
next
  case (Cons k ks)
  let ?s1 = "assign_step o' child s k"
  let ?sf = "foldl (assign_step o' child) ?s1 ks"
  have len1: "o' < length (heap ?s1)"
    using Cons.prems(1) assign_step_length[of s o' child k] by simp
  have sb: "same_below o' s ?s1"
    using Cons.prems(1) by (simp add: assign_step_same_below)
  have fo: "field s o' m = field s p m"
    using Cons.prems(1,2,3,7) by (simp add: field_inherit)
  show ?case
  proof (cases "m = k")
    case True
    then have notin: "m \<notin> set ks" using Cons.prems(5) by simp
    have keep: "own_val (heap ?sf ! o') m = own_val (heap ?s1 ! o') m"
      using len1 notin by (rule fold_own_other)
    show ?thesis
    proof (cases "is_fun s (get_or s child m) \<and> is_fun s (field s p m)")
      case both: True
      let ?w = "length (heap s)"
      have 1: "own_val (heap ?s1 ! o') m = Some (Ref ?w)"
        and 2: "callable (heap ?s1 ! ?w) = Some (ParentFn (get_or s child m) (field s o' m))"
        and 3: "?w < length (heap ?s1)"
        using assign_step_own_wrapped[of o' s child m] Cons.prems(1) both fo True by simp_all
      have "heap ?sf ! ?w = heap ?s1 ! ?w"
        using 3 Cons.prems(1) by (intro fold_nth_other) simp_all
      moreover have "?w < length (heap ?sf)"
        using 3 fold_length[of ?s1 o' child ks] by simp
      ultimately show ?thesis
        using both keep 1 2 fo Cons.prems(1) by simp
    next
      case False
      then have "own_val (heap ?s1 ! o') m = Some (get_or s child m)"
        using assign_step_own_raw[of o' s child m] Cons.prems(1) fo True by simp
      with False keep show ?thesis by auto
    qed
  next
    case False
    then have mks: "m \<in> set ks" using Cons.prems(6) by simp
    have g: "get_or ?s1 child m = get_or s child m"
      using sb Cons.prems(4) by (rule get_or_same_below)
    have f: "field ?s1 p m = field s p m"
      using sb Cons.prems(3) by (rule same_below_field)
    have own1: "own_val (heap ?s1 ! o') m = None"
      using Cons.prems(1,7) False by (simp add: assign_step_own_other)
    have pr1: "proto (heap ?s1 ! o') = Some p"
      using Cons.prems(1,2) by (simp add: assign_step_proto)
    have if1: "is_fun ?s1 (get_or s child m) = is_fun s (get_or s child m)"
      using sb Cons.prems(8) by (rule is_fun_same_below)
    have if2: "is_fun ?s1 (field s p m) = is_fun s (field s p m)"
      using sb Cons.prems(9) by (rule is_fun_same_below)
    have "if is_fun ?s1 (get_or ?s1 child m) \<and> is_fun ?s1 (field ?s1 p m)
         then (\<exists>w. own_val (heap ?sf ! o') m = Some (Ref w)
                 \<and> o' < w \<and> w < length (heap ?sf)
                 \<and> callable (heap ?sf ! w) = Some (ParentFn (get_or ?s1 child m) (field ?s1 p m)))
         else own_val (heap ?sf ! o') m = Some (get_or ?s1 child m)"
      using Cons.prems(3,4,5,8,9) mks
      by (intro Cons.IH[OF len1 pr1]) (simp_all add: own1 g f)
    then show ?thesis unfolding g f if1 if2 foldl_Cons .
  qed
qed

subsection \<open>\<^verbatim>\<open>_extendSingle\<close>, step by step\<close>

lemma inert_extending [simp]: "inert (s\<lparr>extending := b\<rparr>) f = inert s f"
  by (simp add: inert_def)

lemma alloc_extending:
  "snd (alloc ob (s\<lparr>extending := b\<rparr>)) = (snd (alloc ob s))\<lparr>extending := b\<rparr>"
  by (simp add: alloc_def)

lemma for_in_keys_nonempty: "for_in_keys s v \<noteq> [] \<Longrightarrow> v \<noteq> Undefined \<and> v \<noteq> Null"
  by (auto simp: for_in_keys_def)

lemma extendSingle_unfold:
  "extendSingle_call callf s this args =
     materialize callf (class_shell s) (arg_at args 0)
       (\<lambda>child s5. es_rest callf (length (heap s)) this child s5)"
  by (simp add: extendSingle_call_def split_def Let_def class_shell_def es_rest_def
      cong: option.case_cong)

lemma es_tail:
  assumes "inert s t" "field s t ''prototype'' = Ref p" "c < length (heap s)"
  shows "es_rest (call (Suc n)) c (Ref t) child s
         = register c (length (heap s)) (finish_class c p child s)"
proof -
  let ?o = "length (heap s)"
  let ?s6 = "snd (alloc \<lparr>props = [], proto = Some p, callable = None\<rparr> s)"
  let ?s7 = "(put ?s6 c ''prototype'' (Ref ?o))\<lparr>extending := False\<rparr>"
  let ?keys = "for_in_keys ?s7 child"
  let ?s8 = "foldl (assign_step ?o child) ?s7 ?keys"
  have con: "construct (call (Suc n)) (s\<lparr>extending := True\<rparr>) (Ref t) [] =
               Some (Ok (Ref ?o) (?s6\<lparr>extending := True\<rparr>))"
    using construct_inert[of "s\<lparr>extending := True\<rparr>" t p n "[]"] assms(1,2)
    by (simp add: alloc_extending)
  have o7: "?o < length (heap ?s7)" by simp
  have f7: "field ?s7 c ''prototype'' = Ref ?o" using assms(3) by simp
  have loop: "assign_props c child ?keys ?s7 = Some (Ok Undefined ?s8)"
    using assms(3) o7 f7 for_in_keys_nonempty[of ?s7 child]
    by (intro assign_props_fold) auto
  have "same_below ?o ?s7 ?s8" by (rule fold_same_below) simp
  then have f8: "field ?s8 c ''prototype'' = Ref ?o"
    using assms(3) f7 by (simp add: same_below_field)
  show ?thesis
    using loop f8
    by (simp add: es_rest_def con Let_def finish_class_def register_def)
qed

lemma class_shell_simps [simp]:
  "length (heap (class_shell s)) = Suc (Suc (length (heap s)))"
  "extending (class_shell s) = extending s"
  "classes (class_shell s) = classes s"
  "logged (class_shell s) = logged s"
  "lang (class_shell s) = lang s"
  "unsafeMixin (class_shell s) = unsafeMixin s"
  "callable (heap (class_shell s) ! length (heap s)) = Some ClassFn"
  "proto (heap (class_shell s) ! length (heap s)) = Some function_proto"
  by (simp_all add: class_shell_def Let_def)

lemma class_shell_same_below: "same_below (length (heap s)) s (class_shell s)"
  unfolding class_shell_def Let_def
  by (intro same_below_trans[OF same_below_alloc_fun same_below_trans[OF same_below_put
        same_below_trans[OF same_below_put same_below_put]]]) simp_all

lemma class_shell_statics:
  "field (class_shell s) (length (heap s)) ''extend'' = Ref extend_addr"
  "field (class_shell s) (length (heap s)) ''_extendSingle'' = Ref extendSingle_addr"
  "field (class_shell s) (length (heap s)) ''implement'' = Ref implement_addr"
  by (simp_all add: class_shell_def Let_def)

lemma inert_same_below: "same_below n s s' \<Longrightarrow> t < n \<Longrightarrow> inert s' t = inert s t"
  by (auto simp: inert_def same_below_nth) (simp_all add: same_below_def)

lemma extendSingle_plain:
  assumes "inert s t" "field s t ''prototype'' = Ref p" "\<not> is_fun s child"
    and "\<forall>d. child = Ref d \<longrightarrow> d < length (heap s)"
  shows "extendSingle_call (call (Suc n)) s (Ref t) [child] =
           register (length (heap s)) (Suc (Suc (length (heap s))))
             (finish_class (length (heap s)) p child (class_shell s))"
proof -
  let ?c = "length (heap s)"
  let ?s4 = "class_shell s"
  note sb = class_shell_same_below[of s]
  have t: "t < ?c" using assms(1) by (simp add: inert_def)
  have i4: "inert ?s4 t" using sb t assms(1) by (simp add: inert_same_below)
  have f4: "field ?s4 t ''prototype'' = Ref p" using sb t assms(2) by (simp add: same_below_field)
  have nf: "\<not> is_fun ?s4 child" using is_fun_same_below[OF sb assms(4)] assms(3) by simp
  have c4: "?c < length (heap ?s4)" by simp
  show ?thesis
    using es_tail[OF i4 f4 c4, of n child] nf
    by (simp add: extendSingle_unfold arg_at_def materialize_def)
qed

lemma extendSingle_ctor:
  assumes "inert s t" "field s t ''prototype'' = Ref p"
    and "inert s d" "field s d ''prototype'' = Ref q"
  shows "extendSingle_call (call (Suc n)) s (Ref t) [Ref d] =
           register (length (heap s)) (Suc (Suc (Suc (length (heap s)))))
             (finish_class (length (heap s)) p (Ref (Suc (Suc (length (heap s)))))
                (snd (alloc \<lparr>props = [], proto = Some q, callable = None\<rparr> (class_shell s))))"
proof -
  let ?c = "length (heap s)"
  let ?s4 = "class_shell s"
  let ?s5 = "snd (alloc \<lparr>props = [], proto = Some q, callable = None\<rparr> ?s4)"
  note sb = class_shell_same_below[of s]
  have t: "t < ?c" using assms(1) by (simp add: inert_def)
  have d: "d < ?c" using assms(3) by (simp add: inert_def)
  have i4: "inert ?s4 t" "inert ?s4 d" using sb t d assms(1,3) by (simp_all add: inert_same_below)
  have f4: "field ?s4 t ''prototype'' = Ref p" "field ?s4 d ''prototype'' = Ref q"
    using sb t d assms(2,4) by (simp_all add: same_below_field)
  have sb5: "same_below (length (heap ?s4)) ?s4 ?s5" by (intro same_below_alloc) simp
  have i5: "inert (?s5\<lparr>extending := False\<rparr>) t"
    using inert_same_below[OF sb5, of t] i4 t by simp
  have f5: "field (?s5\<lparr>extending := False\<rparr>) t ''prototype'' = Ref p"
    using f4 t by simp
  have c5: "?c < length (heap (?s5\<lparr>extending := False\<rparr>))" by simp
  have con: "construct (call (Suc n)) (?s4\<lparr>extending := True\<rparr>) (Ref d) [] =
               Some (Ok (Ref (Suc (Suc ?c))) (?s5\<lparr>extending := True\<rparr>))"
    using construct_inert[of "?s4\<lparr>extending := True\<rparr>" d q n "[]"] i4 f4
    by (simp add: alloc_extending)
  have fin: "finish_class ?c p (Ref (Suc (Suc ?c))) (?s5\<lparr>extending := False\<rparr>)
             = finish_class ?c p (Ref (Suc (Suc ?c))) ?s5"
    by (simp add: finish_class_def alloc_extending Let_def)
  have isf: "is_fun ?s4 (Ref d)" using i4 by (simp add: inert_is_fun)
  show ?thesis
    using es_tail[OF i5 f5 c5, of n "Ref (Suc (Suc ?c))"] isf
    by (simp add: extendSingle_unfold arg_at_def materialize_def con fin)
qed

lemma chain_keys_disjoint: "set (chain_keys h as seen) \<inter> set seen = {}"
proof (induction as arbitrary: seen)
  case Nil
  show ?case by simp
next
  case (Cons a as)
  have "set (chain_keys h as (seen @ map fst (props (h ! a)))) \<inter> set seen = {}"
    using Cons.IH[of "seen @ map fst (props (h ! a))"] by auto
  then show ?case by auto
qed

lemma distinct_chain_keys: "distinct (chain_keys h as seen)"
proof (induction as arbitrary: seen)
  case Nil
  show ?case by simp
next
  case (Cons a as)
  let ?own = "filter (\<lambda>k. k \<notin> set seen) (remdups (map fst (filter (\<lambda>p. snd (snd p)) (props (h ! a)))))"
  have "set ?own \<subseteq> set (seen @ map fst (props (h ! a)))" by auto
  moreover have "set (chain_keys h as (seen @ map fst (props (h ! a))))
                   \<inter> set (seen @ map fst (props (h ! a))) = {}"
    by (rule chain_keys_disjoint)
  ultimately have "set ?own \<inter> set (chain_keys h as (seen @ map fst (props (h ! a)))) = {}"
    by blast
  with Cons.IH show ?case by simp
qed

lemma distinct_for_in_keys_Ref: "distinct (for_in_keys s (Ref d))"
  by (simp add: for_in_keys_def distinct_chain_keys)

lemma for_in_keys_put:
  "a \<notin> set (proto_chain (heap s) d) \<Longrightarrow> for_in_keys (put s a k x) (Ref d) = for_in_keys s (Ref d)"
  by (simp add: for_in_keys_def) (rule chain_keys_cong, metis put_nth_other)

lemma field_put_not_in_chain:
  "a \<notin> set (proto_chain (heap s) d) \<Longrightarrow> field (put s a k x) d k' = field s d k'"
  by (simp add: field_def lookup_put_not_in_chain)

lemma unseen_below: "\<forall>d. v = Ref d \<longrightarrow> d < c \<Longrightarrow> c \<le> length (heap s) \<Longrightarrow> unseen s c v"
  by (auto simp: unseen_def dest: proto_chain_le)

lemma get_or_put_unseen: "unseen s c v \<Longrightarrow> get_or (put s c k x) v k' = get_or s v k'"
  by (cases v) (simp_all add: get_or_def get_val_def unseen_def lookup_put_not_in_chain)

lemma for_in_keys_put_unseen: "unseen s c v \<Longrightarrow> for_in_keys (put s c k x) v = for_in_keys s v"
proof (cases v)
  case (Ref d)
  assume "unseen s c v"
  with Ref show ?thesis by (simp add: unseen_def for_in_keys_put)
qed (simp_all add: for_in_keys_def)

lemma get_or_alloc: "\<forall>d. v = Ref d \<longrightarrow> d < length (heap s) \<Longrightarrow> get_or (snd (alloc ob s)) v k = get_or s v k"
  by (cases v) (simp_all add: get_or_def get_val_def lookup_append)

lemma get_or_extending [simp]: "get_or (s\<lparr>extending := b\<rparr>) v k = get_or s v k"
  by (simp add: get_or_def get_val_def split: val.splits)

lemma finish_class_alt:
  "finish_class c p child s =
     foldl (assign_step (length (heap s)) child) (pre_loop c p s) (for_in_keys (pre_loop c p s) child)"
  by (simp add: finish_class_def pre_loop_def Let_def)

lemma pre_loop_simps [simp]:
  "length (heap (pre_loop c p s)) = Suc (length (heap s))"
  "extending (pre_loop c p s) = False"
  "classes (pre_loop c p s) = classes s"
  "logged (pre_loop c p s) = logged s"
  "lang (pre_loop c p s) = lang s"
  "unsafeMixin (pre_loop c p s) = unsafeMixin s"
  by (simp_all add: pre_loop_def)

lemma pre_loop_new:
  assumes "c < length (heap s)"
  shows "proto (heap (pre_loop c p s) ! length (heap s)) = Some p"
    and "callable (heap (pre_loop c p s) ! length (heap s)) = None"
    and "own_val (heap (pre_loop c p s) ! length (heap s)) k = None"
  using assms by (simp_all add: pre_loop_def own_val_def)

lemma pre_loop_nth_other:
  "a < length (heap s) \<Longrightarrow> a \<noteq> c \<Longrightarrow> heap (pre_loop c p s) ! a = heap s ! a"
  by (simp add: pre_loop_def nth_append)

lemma pre_loop_same_below: "c < length (heap s) \<Longrightarrow> same_below c s (pre_loop c p s)"
  unfolding pre_loop_def
  by (simp, intro same_below_trans[OF same_below_alloc same_below_put]) simp_all

lemma pre_loop_class:
  assumes "c < length (heap s)"
  shows "callable (heap (pre_loop c p s) ! c) = callable (heap s ! c)"
    and "field (pre_loop c p s) c ''prototype'' = Ref (length (heap s))"
    and "k \<noteq> ''prototype'' \<Longrightarrow> field (pre_loop c p s) c k = field s c k"
    and "proto (heap (pre_loop c p s) ! c) = proto (heap s ! c)"
  using assms by (simp_all add: pre_loop_def nth_append)

lemma pre_loop_field_below:
  "a < c \<Longrightarrow> c < length (heap s) \<Longrightarrow> field (pre_loop c p s) a k = field s a k"
  by (simp add: pre_loop_def)

lemma pre_loop_child:
  assumes "unseen s c child"
  shows "get_or (pre_loop c p s) child k = get_or s child k"
    and "for_in_keys (pre_loop c p s) child = for_in_keys s child"
proof -
  let ?s6 = "snd (alloc \<lparr>props = [], proto = Some p, callable = None\<rparr> s)"
  have b: "\<forall>d. child = Ref d \<longrightarrow> d < length (heap s)" using assms by (simp add: unseen_def)
  have u6: "unseen ?s6 c child"
    using assms by (auto simp: unseen_def proto_chain_append)
  have sb: "same_below (length (heap s)) s ?s6" by (intro same_below_alloc) simp
  show "get_or (pre_loop c p s) child k = get_or s child k"
    using u6 b by (simp add: pre_loop_def get_or_put_unseen get_or_alloc)
  show "for_in_keys (pre_loop c p s) child = for_in_keys s child"
    using u6 for_in_keys_same_below[OF sb b] by (simp add: pre_loop_def for_in_keys_put_unseen)
qed

lemma finish_fields [simp]:
  "extending (finish_class c p child s) = False"
  "classes (finish_class c p child s) = classes s"
  "logged (finish_class c p child s) = logged s"
  "lang (finish_class c p child s) = lang s"
  "unsafeMixin (finish_class c p child s) = unsafeMixin s"
  by (simp_all add: finish_class_alt)

lemma finish_length: "length (heap s) < length (heap (finish_class c p child s))"
  using fold_length[of "pre_loop c p s" "length (heap s)" child "for_in_keys (pre_loop c p s) child"]
  by (simp add: finish_class_alt)

lemma finish_same_below:
  assumes "c < length (heap s)"
  shows "same_below c s (finish_class c p child s)"
proof -
  have 1: "same_below c s (pre_loop c p s)" using assms by (rule pre_loop_same_below)
  have "same_below (length (heap s)) (pre_loop c p s) (finish_class c p child s)"
    unfolding finish_class_alt by (rule fold_same_below) simp
  then have 2: "same_below c (pre_loop c p s) (finish_class c p child s)"
    by (rule same_below_mono) (use assms in simp)
  from same_below_trans[OF 1 2] show ?thesis .
qed

lemma finish_nth_other:
  assumes "a < length (heap s)" "a \<noteq> c"
  shows "heap (finish_class c p child s) ! a = heap s ! a"
proof -
  have "heap (finish_class c p child s) ! a = heap (pre_loop c p s) ! a"
    unfolding finish_class_alt using assms by (intro fold_nth_other) simp_all
  with assms show ?thesis by (simp add: pre_loop_nth_other)
qed

lemma finish_class_obj:
  assumes "c < length (heap s)"
  shows "callable (heap (finish_class c p child s) ! c) = callable (heap s ! c)"
    and "field (finish_class c p child s) c ''prototype'' = Ref (length (heap s))"
    and "k \<noteq> ''prototype'' \<Longrightarrow> field (finish_class c p child s) c k = field s c k"
    and "proto (heap (finish_class c p child s) ! c) = proto (heap s ! c)"
proof -
  have sb: "same_below (length (heap s)) (pre_loop c p s) (finish_class c p child s)"
    unfolding finish_class_alt by (rule fold_same_below) simp
  show "callable (heap (finish_class c p child s) ! c) = callable (heap s ! c)"
    using same_below_nth[OF sb assms] pre_loop_class(1)[OF assms] by simp
  show "field (finish_class c p child s) c ''prototype'' = Ref (length (heap s))"
    using same_below_field[OF sb assms] pre_loop_class(2)[OF assms] by simp
  show "k \<noteq> ''prototype'' \<Longrightarrow> field (finish_class c p child s) c k = field s c k"
    using same_below_field[OF sb assms] pre_loop_class(3)[OF assms] by simp
  show "proto (heap (finish_class c p child s) ! c) = proto (heap s ! c)"
    using same_below_nth[OF sb assms] pre_loop_class(4)[OF assms] by simp
qed

lemma finish_proto_obj:
  assumes "c < length (heap s)"
  shows "proto (heap (finish_class c p child s) ! length (heap s)) = Some p"
    and "callable (heap (finish_class c p child s) ! length (heap s)) = None"
  using fold_proto_callable[of "length (heap s)" "pre_loop c p s" child
          "for_in_keys (pre_loop c p s) child"] pre_loop_new(1,2)[OF assms, of p]
  by (simp_all add: finish_class_alt)

lemma finish_inherit:
  assumes "c < length (heap s)" "p < c" "unseen s c child" "k \<notin> set (for_in_keys s child)"
  shows "field (finish_class c p child s) (length (heap s)) k = field s p k"
proof -
  let ?o = "length (heap s)"
  let ?s7 = "pre_loop c p s"
  let ?sf = "finish_class c p child s"
  have keys: "for_in_keys ?s7 child = for_in_keys s child"
    using assms(3) by (rule pre_loop_child)
  have own: "own_val (heap ?sf ! ?o) k = None"
    unfolding finish_class_alt keys
    using fold_own_other[of ?o ?s7 k "for_in_keys s child" child] assms(4) pre_loop_new(3)[OF assms(1)]
    by simp
  have pr: "proto (heap ?sf ! ?o) = Some p" using assms(1) by (rule finish_proto_obj)
  have len: "?o < length (heap ?sf)" by (rule finish_length)
  have "field ?sf ?o k = field ?sf p k"
    using len own pr assms(1,2) by (intro field_inherit) simp_all
  also have "\<dots> = field s p k"
    using same_below_field[OF finish_same_below[OF assms(1)], of p p child k] assms(2) by simp
  finally show ?thesis .
qed

lemma finish_key:
  assumes "c < length (heap s)" "p < c" "unseen s c child"
    and "distinct (for_in_keys s child)" "m \<in> set (for_in_keys s child)"
    and "\<forall>f. get_or s child m = Ref f \<longrightarrow> f < length (heap s)"
    and "\<forall>b. field s p m = Ref b \<longrightarrow> b < length (heap s)"
  shows "if is_fun s (get_or s child m) \<and> is_fun s (field s p m)
         then (\<exists>w. field (finish_class c p child s) (length (heap s)) m = Ref w
                 \<and> length (heap s) < w \<and> w < length (heap (finish_class c p child s))
                 \<and> callable (heap (finish_class c p child s) ! w)
                     = Some (ParentFn (get_or s child m) (field s p m)))
         else field (finish_class c p child s) (length (heap s)) m = get_or s child m"
proof -
  let ?o = "length (heap s)"
  let ?s7 = "pre_loop c p s"
  let ?sf = "finish_class c p child s"
  have keys: "for_in_keys ?s7 child = for_in_keys s child"
    and g: "get_or ?s7 child m = get_or s child m"
    using assms(3) by (simp_all add: pre_loop_child)
  have f: "field ?s7 p m = field s p m" using assms(1,2) by (simp add: pre_loop_field_below)
  have below: "\<forall>d. child = Ref d \<longrightarrow> d < ?o" using assms(3) by (simp add: unseen_def)
  have sb: "same_below c s ?s7" using assms(1) by (rule pre_loop_same_below)
  have nth: "\<And>a. a < ?o \<Longrightarrow> a \<noteq> c \<Longrightarrow> heap ?s7 ! a = heap s ! a"
    by (simp add: pre_loop_nth_other)
  have isf: "\<And>v. \<forall>d. v = Ref d \<longrightarrow> d < ?o \<Longrightarrow> is_fun ?s7 v = is_fun s v"
  proof -
    fix v assume v: "\<forall>d. v = Ref d \<longrightarrow> d < ?o"
    show "is_fun ?s7 v = is_fun s v"
    proof (cases v)
      case (Ref d)
      with v have d: "d < ?o" by simp
      show ?thesis
      proof (cases "d = c")
        case True
        with Ref assms(1) pre_loop_class(1)[OF assms(1), of p] show ?thesis
          by (simp add: is_fun_Ref)
      next
        case False
        with Ref d nth[of d] show ?thesis by (simp add: is_fun_Ref)
      qed
    qed simp_all
  qed
  have len: "?o < length (heap ?sf)" by (rule finish_length)
  have main: "if is_fun ?s7 (get_or ?s7 child m) \<and> is_fun ?s7 (field ?s7 p m)
         then (\<exists>w. own_val (heap ?sf ! ?o) m = Some (Ref w)
                 \<and> ?o < w \<and> w < length (heap ?sf)
                 \<and> callable (heap ?sf ! w) = Some (ParentFn (get_or ?s7 child m) (field ?s7 p m)))
         else own_val (heap ?sf ! ?o) m = Some (get_or ?s7 child m)"
    unfolding finish_class_alt keys
    using assms(1,2,4,5,6,7) below pre_loop_new[OF assms(1), of p]
    by (intro fold_own_key) (simp_all add: g f)
  show ?thesis
  proof (cases "is_fun s (get_or s child m) \<and> is_fun s (field s p m)")
    case True
    with main isf[OF assms(6)] isf[OF assms(7)]
    obtain w where w: "own_val (heap ?sf ! ?o) m = Some (Ref w)" "?o < w" "w < length (heap ?sf)"
      "callable (heap ?sf ! w) = Some (ParentFn (get_or s child m) (field s p m))"
      by (auto simp: g f)
    from field_own[OF len w(1)] w True show ?thesis by auto
  next
    case False
    with main isf[OF assms(6)] isf[OF assms(7)]
    have "own_val (heap ?sf ! ?o) m = Some (get_or s child m)"
      by (auto simp: g f)
    from field_own[OF len this] False show ?thesis by auto
  qed
qed

subsection \<open>Types\<close>

lemma is_Type_inert: "is_Type s t \<Longrightarrow> inert s t"
  by (auto simp: is_Type_def inert_def split: option.splits code.splits)

lemma is_Type_proto:
  "is_Type s t \<Longrightarrow> \<exists>p. field s t ''prototype'' = Ref p \<and> p < length (heap s)
                       \<and> to_key (field s p ''className'') \<noteq> None"
  by (auto simp: is_Type_def split: val.splits)

lemma bounded_simps [simp]:
  "bounded s Undefined" "bounded s Null" "bounded s (Bool b)" "bounded s (Num i)"
  "bounded s (Str cs)" "bounded s (Arr vs)" "bounded s (Ref a) = (a < length (heap s))"
  by (simp_all add: bounded_def)

lemma bounded_alt: "bounded s v \<longleftrightarrow> (\<forall>d. v = Ref d \<longrightarrow> d < length (heap s))"
  by (cases v) simp_all

lemma to_key_Some_not_fun: "to_key v = Some k \<Longrightarrow> \<not> is_fun s v \<and> bounded s v"
  by (cases v) (simp_all add: to_key_def)

lemma loaded_same_below:
  "loaded s \<Longrightarrow> same_below (length (heap s)) s s' \<Longrightarrow> loaded s'"
proof -
  assume l: "loaded s" and sb: "same_below (length (heap s)) s s'"
  from l have a: "extendSingle_addr < length (heap s)" by (simp add: loaded_def)
  then have "extend_addr < length (heap s)" "implement_addr < length (heap s)"
    "function_proto < length (heap s)"
    by (simp_all add: extendSingle_addr_def extend_addr_def implement_addr_def function_proto_def)
  with a sb l show ?thesis
    by (simp add: loaded_def same_below_nth) (simp add: same_below_def)
qed

subsection \<open>The result of \<^verbatim>\<open>_extendSingle\<close>\<close>

lemma derived_from_finish:
  assumes L: "loaded s"
    and s4: "same_below (length (heap s)) s s4" "length (heap s) < length (heap s4)"
      "callable (heap s4 ! length (heap s)) = Some ClassFn"
      "proto (heap s4 ! length (heap s)) = Some function_proto"
      "field s4 (length (heap s)) ''extend'' = Ref extend_addr"
      "field s4 (length (heap s)) ''_extendSingle'' = Ref extendSingle_addr"
      "field s4 (length (heap s)) ''implement'' = Ref implement_addr"
      "logged s4 = logged s" "lang s4 = lang s" "unsafeMixin s4 = unsafeMixin s"
      "classes s4 = classes s"
    and p: "p < length (heap s)" "to_key (field s p ''className'') \<noteq> None"
    and ch: "unseen s4 (length (heap s)) child'" "distinct (for_in_keys s child)"
      "for_in_keys s4 child' = for_in_keys s child"
      "\<And>m. get_or s4 child' m = get_or s child m"
    and N: "to_key (if ''className'' \<in> set (for_in_keys s child)
                   then get_or s child ''className'' else field s p ''className'') = Some nm"
  shows "\<exists>s'. register (length (heap s)) (length (heap s4))
                (finish_class (length (heap s)) p child' s4)
              = Some (Ok (Ref (length (heap s))) s')
            \<and> derived s p child nm (length (heap s4)) s'"
proof -
  let ?c = "length (heap s)"
  let ?o = "length (heap s4)"
  let ?sf = "finish_class ?c p child' s4"
  let ?s' = "?sf\<lparr>classes := (classes ?sf)(nm \<mapsto> Ref ?c)\<rparr>"
  note c4 = s4(2)
  have pc: "p < ?c" by (rule p(1))
  have f4: "\<And>k. field s4 p k = field s p k"
    using same_below_field[OF s4(1) pc] .
  have isf4: "\<And>v. bounded s v \<Longrightarrow> is_fun s4 v = is_fun s v"
    using is_fun_same_below[OF s4(1)] by (simp add: bounded_alt)
  have sbf: "same_below ?c s4 ?sf" using c4 by (rule finish_same_below)
  have sb: "same_below ?c s ?sf" using same_below_trans[OF s4(1) sbf] .
  have len: "?o < length (heap ?sf)" by (rule finish_length)
  have key: "\<And>m. m \<in> set (for_in_keys s child) \<Longrightarrow> bounded s (get_or s child m)
                \<Longrightarrow> bounded s (field s p m) \<Longrightarrow>
      (if is_fun s (get_or s child m) \<and> is_fun s (field s p m)
       then (\<exists>w. field ?sf ?o m = Ref w \<and> ?o < w \<and> w < length (heap ?sf)
               \<and> callable (heap ?sf ! w) = Some (ParentFn (get_or s child m) (field s p m)))
       else field ?sf ?o m = get_or s child m)"
  proof -
    fix m assume m: "m \<in> set (for_in_keys s child)" and b1: "bounded s (get_or s child m)"
      and b2: "bounded s (field s p m)"
    have "if is_fun s4 (get_or s4 child' m) \<and> is_fun s4 (field s4 p m)
         then (\<exists>w. field ?sf ?o m = Ref w \<and> ?o < w \<and> w < length (heap ?sf)
                 \<and> callable (heap ?sf ! w) = Some (ParentFn (get_or s4 child' m) (field s4 p m)))
         else field ?sf ?o m = get_or s4 child' m"
      using c4 pc ch(1) ch(2) m b1 b2
      by (intro finish_key) (auto simp: ch(3) ch(4) f4 bounded_alt)
    then show "(if is_fun s (get_or s child m) \<and> is_fun s (field s p m)
       then (\<exists>w. field ?sf ?o m = Ref w \<and> ?o < w \<and> w < length (heap ?sf)
               \<and> callable (heap ?sf ! w) = Some (ParentFn (get_or s child m) (field s p m)))
       else field ?sf ?o m = get_or s child m)"
      unfolding ch(4) f4 isf4[OF b1] isf4[OF b2] .
  qed
  have inh: "\<And>k. k \<notin> set (for_in_keys s child) \<Longrightarrow> field ?sf ?o k = field s p k"
    using finish_inherit[OF c4 pc ch(1)] by (simp add: ch(3) f4)
  have cn: "to_key (field ?sf ?o ''className'') = Some nm"
  proof (cases "''className'' \<in> set (for_in_keys s child)")
    case True
    with N have tk: "to_key (get_or s child ''className'') = Some nm" by simp
    obtain k where "to_key (field s p ''className'') = Some k" using p(2) by auto
    from key[OF True] to_key_Some_not_fun[OF tk, of s] to_key_Some_not_fun[OF this, of s]
    have "field ?sf ?o ''className'' = get_or s child ''className''" by simp
    with tk show ?thesis by simp
  next
    case False
    with N inh[OF False] show ?thesis by simp
  qed
  have reg: "register ?c ?o ?sf = Some (Ok (Ref ?c) ?s')"
    by (simp add: register_def cn)
  have cls: "callable (heap ?sf ! ?c) = Some ClassFn"
    using finish_class_obj(1)[OF c4, of p child'] s4(3) by simp
  have prot: "field ?sf ?c ''prototype'' = Ref ?o"
    using finish_class_obj(2)[OF c4] .
  have stat: "field ?sf ?c ''extend'' = Ref extend_addr"
    "field ?sf ?c ''_extendSingle'' = Ref extendSingle_addr"
    "field ?sf ?c ''implement'' = Ref implement_addr"
    using finish_class_obj(3)[OF c4, of _ p child'] s4(5,6,7) by simp_all
  have fp: "function_proto < ?c"
    using L by (simp add: loaded_def function_proto_def extendSingle_addr_def)
  have prc: "proto (heap ?sf ! ?c) = Some function_proto"
    using finish_class_obj(4)[OF c4, of p child'] s4(4) by simp
  have isT: "is_Type ?s' ?c"
    using cls prc fp prot stat len c4 cn by (simp add: is_Type_def field_def[symmetric])
  have ld: "loaded ?s'"
    using loaded_same_below[OF L, of ?s'] sb by simp
  have po: "proto (heap ?sf ! ?o) = Some p" "callable (heap ?sf ! ?o) = None"
    using finish_proto_obj[OF c4] by simp_all
  have key': "\<forall>m. m \<in> set (for_in_keys s child) \<and> bounded s (get_or s child m)
                \<and> bounded s (field s p m) \<longrightarrow>
      (if is_fun s (get_or s child m) \<and> is_fun s (field s p m)
       then (\<exists>w. field ?s' ?o m = Ref w \<and> ?c < w \<and> w < length (heap ?s')
               \<and> callable (heap ?s' ! w) = Some (ParentFn (get_or s child m) (field s p m)))
       else field ?s' ?o m = get_or s child m)"
  proof (intro allI impI)
    fix m assume a: "m \<in> set (for_in_keys s child) \<and> bounded s (get_or s child m)
                \<and> bounded s (field s p m)"
    from key[of m] a c4 show "(if is_fun s (get_or s child m) \<and> is_fun s (field s p m)
       then (\<exists>w. field ?s' ?o m = Ref w \<and> ?c < w \<and> w < length (heap ?s')
               \<and> callable (heap ?s' ! w) = Some (ParentFn (get_or s child m) (field s p m)))
       else field ?s' ?o m = get_or s child m)"
      by (cases "is_fun s (get_or s child m) \<and> is_fun s (field s p m)") auto
  qed
  have inh': "\<forall>k. k \<notin> set (for_in_keys s child) \<longrightarrow> field ?s' ?o k = field s p k"
    using inh by simp
  have "derived s p child nm ?o ?s'"
    unfolding derived_def
    using sb c4 len s4(8,9,10,11) ld isT prot po cn inh' key'
    by simp
  with reg show ?thesis by blast
qed

lemma extendSingle_inert_plain:
  assumes L: "loaded s" and T: "inert s t" "field s t ''prototype'' = Ref p"
    and p: "p < length (heap s)" "to_key (field s p ''className'') \<noteq> None"
    and C: "\<not> is_fun s child" "bounded s child" "distinct (for_in_keys s child)"
    and N: "to_key (if ''className'' \<in> set (for_in_keys s child)
                   then get_or s child ''className'' else field s p ''className'') = Some nm"
  shows "\<exists>s'. extendSingle_call (call (Suc n)) s (Ref t) [child]
                = Some (Ok (Ref (length (heap s))) s')
            \<and> derived s p child nm (Suc (Suc (length (heap s)))) s'"
proof -
  let ?c = "length (heap s)"
  let ?s4 = "class_shell s"
  note sb = class_shell_same_below[of s]
  have b: "\<forall>d. child = Ref d \<longrightarrow> d < ?c" using C(2) by (simp add: bounded_alt)
  have es: "extendSingle_call (call (Suc n)) s (Ref t) [child] =
              register ?c (Suc (Suc ?c)) (finish_class ?c p child ?s4)"
    using T C(1) b by (rule extendSingle_plain)
  have u: "unseen ?s4 ?c child" using b by (intro unseen_below) simp_all
  have k: "for_in_keys ?s4 child = for_in_keys s child"
    using sb b by (rule for_in_keys_same_below)
  have g: "\<And>m. get_or ?s4 child m = get_or s child m"
    using sb b by (rule get_or_same_below)
  have "\<exists>s'. register ?c (length (heap ?s4)) (finish_class ?c p child ?s4)
              = Some (Ok (Ref ?c) s')
            \<and> derived s p child nm (length (heap ?s4)) s'"
    using L sb p u C(3) k g N
    by (intro derived_from_finish) (simp_all add: class_shell_statics)
  then show ?thesis by (simp add: es)
qed

lemma extendSingle_Type_plain:
  assumes L: "loaded s" and T: "is_Type s t" "field s t ''prototype'' = Ref p"
    and C: "\<not> is_fun s child" "bounded s child" "distinct (for_in_keys s child)"
    and N: "to_key (if ''className'' \<in> set (for_in_keys s child)
                   then get_or s child ''className'' else field s p ''className'') = Some nm"
  shows "\<exists>s'. extendSingle_call (call (Suc n)) s (Ref t) [child]
                = Some (Ok (Ref (length (heap s))) s')
            \<and> derived s p child nm (Suc (Suc (length (heap s)))) s'"
proof -
  from is_Type_proto[OF T(1)] T(2)
  have p: "p < length (heap s)" "to_key (field s p ''className'') \<noteq> None" by simp_all
  show ?thesis
    using L is_Type_inert[OF T(1)] T(2) p C N by (rule extendSingle_inert_plain)
qed

lemma chain_keys_empty_head:
  "props (h ! a) = [] \<Longrightarrow> chain_keys h (a # as) [] = chain_keys h as []"
  by simp

lemma extendSingle_Type_ctor:
  assumes L: "loaded s" and T: "is_Type s t" "field s t ''prototype'' = Ref p"
    and D: "is_Type s d" "field s d ''prototype'' = Ref q"
    and N: "to_key (if ''className'' \<in> set (for_in_keys s (Ref q))
                   then field s q ''className'' else field s p ''className'') = Some nm"
  shows "\<exists>s'. extendSingle_call (call (Suc n)) s (Ref t) [Ref d]
                = Some (Ok (Ref (length (heap s))) s')
            \<and> derived s p (Ref q) nm (Suc (Suc (Suc (length (heap s))))) s'"
proof -
  let ?c = "length (heap s)"
  let ?e = "Suc (Suc ?c)"
  let ?s4 = "class_shell s"
  let ?s5 = "snd (alloc \<lparr>props = [], proto = Some q, callable = None\<rparr> ?s4)"
  note sb4 = class_shell_same_below[of s]
  from is_Type_proto[OF T(1)] T(2)
  have p: "p < ?c" "to_key (field s p ''className'') \<noteq> None" by simp_all
  from is_Type_proto[OF D(1)] D(2) have q: "q < ?c" by simp
  have es: "extendSingle_call (call (Suc n)) s (Ref t) [Ref d] =
              register ?c (Suc ?e) (finish_class ?c p (Ref ?e) ?s5)"
    using is_Type_inert[OF T(1)] T(2) is_Type_inert[OF D(1)] D(2) by (rule extendSingle_ctor)
  have sb45: "same_below ?c ?s4 ?s5" by (intro same_below_alloc) simp
  have sb: "same_below ?c s ?s5" using same_below_trans[OF sb4 sb45] .
  have len4: "length (heap ?s4) = ?e" by simp
  have pc5: "proto_chain (heap ?s5) ?e = ?e # proto_chain (heap ?s5) q"
    using q by (subst proto_chain.simps) (simp add: nth_append)
  have u: "unseen ?s5 ?c (Ref ?e)"
    using q pc5 by (auto simp: unseen_def dest: proto_chain_le)
  have k: "for_in_keys ?s5 (Ref ?e) = for_in_keys s (Ref q)"
  proof -
    have "for_in_keys ?s5 (Ref ?e) = for_in_keys ?s5 (Ref q)"
      unfolding for_in_keys_def using pc5 by (simp add: nth_append)
    also have "\<dots> = for_in_keys s (Ref q)"
      using sb q by (intro for_in_keys_same_below) simp_all
    finally show ?thesis .
  qed
  have g: "\<And>m. get_or ?s5 (Ref ?e) m = get_or s (Ref q) m"
  proof -
    fix m
    have "field ?s5 ?e m = field ?s4 q m"
      using field_alloc_new[of q ?s4 m] q by simp
    also have "\<dots> = field s q m" using sb4 q by (rule same_below_field)
    finally show "get_or ?s5 (Ref ?e) m = get_or s (Ref q) m" by simp
  qed
  have st: "field ?s5 ?c ''extend'' = Ref extend_addr"
    "field ?s5 ?c ''_extendSingle'' = Ref extendSingle_addr"
    "field ?s5 ?c ''implement'' = Ref implement_addr"
    by (simp_all add: class_shell_statics)
  have cl: "callable (heap ?s5 ! ?c) = Some ClassFn"
    "proto (heap ?s5 ! ?c) = Some function_proto" by (simp_all add: nth_append)
  have N': "to_key (if ''className'' \<in> set (for_in_keys s (Ref q))
                   then get_or s (Ref q) ''className'' else field s p ''className'') = Some nm"
    using N by (simp split: if_splits)
  have "\<exists>s'. register ?c (length (heap ?s5)) (finish_class ?c p (Ref ?e) ?s5)
              = Some (Ok (Ref ?c) s')
            \<and> derived s p (Ref q) nm (length (heap ?s5)) s'"
    by (rule derived_from_finish[OF L sb _ cl st _ _ _ _ p u distinct_for_in_keys_Ref k g N'])
       simp_all
  then show ?thesis by (simp add: es)
qed

subsection \<open>Calls through the members of a Type\<close>

lemma digit_inj: "i < 10 \<Longrightarrow> j < 10 \<Longrightarrow> digit i = digit j \<Longrightarrow> i = j"
proof -
  assume i: "i < 10" and j: "j < 10" and e: "digit i = digit j"
  have d: "distinct ''0123456789''" by simp
  have "(''0123456789'' ! i = ''0123456789'' ! j) = (i = j)"
    using i j by (intro nth_eq_iff_index_eq[OF d]) simp_all
  with e show ?thesis by (simp add: digit_def)
qed

lemma dec_nonempty: "dec n \<noteq> []"
  by (subst dec.simps) simp

lemma dec_inj: "dec n = dec m \<Longrightarrow> n = m"
proof (induction n arbitrary: m rule: dec.induct)
  case (1 n)
  show ?case
  proof (cases "n < 10")
    case True
    then have dn: "dec n = [digit n]" by (subst dec.simps) simp
    show ?thesis
    proof (cases "m < 10")
      case m: True
      then have "dec m = [digit m]" by (subst dec.simps) simp
      with dn "1.prems" True m show ?thesis by (simp add: digit_inj)
    next
      case False
      then have "dec m = dec (m div 10) @ [digit (m mod 10)]" by (subst dec.simps) simp
      with dn "1.prems" dec_nonempty[of "m div 10"] show ?thesis by simp
    qed
  next
    case False
    then have dn: "dec n = dec (n div 10) @ [digit (n mod 10)]" by (subst dec.simps) simp
    show ?thesis
    proof (cases "m < 10")
      case True
      then have "dec m = [digit m]" by (subst dec.simps) simp
      with dn "1.prems" dec_nonempty[of "n div 10"] show ?thesis by simp
    next
      case m: False
      then have dm: "dec m = dec (m div 10) @ [digit (m mod 10)]" by (subst dec.simps) simp
      from dn dm "1.prems" have a: "dec (n div 10) = dec (m div 10)"
        and b: "digit (n mod 10) = digit (m mod 10)" by simp_all
      from "1.IH"[OF False a] have "n div 10 = m div 10" .
      moreover from b have "n mod 10 = m mod 10" by (intro digit_inj) simp_all
      ultimately show ?thesis by (metis div_mult_mod_eq)
    qed
  qed
qed

lemma distinct_for_in_keys: "distinct (for_in_keys s v)"
  by (cases v) (simp_all add: for_in_keys_def distinct_chain_keys distinct_map inj_on_def dec_inj)



lemma loaded_codes:
  assumes "loaded s"
  shows "extend_addr < length (heap s)" "callable (heap s ! extend_addr) = Some ExtendFn"
    "implement_addr < length (heap s)" "callable (heap s ! implement_addr) = Some ImplementFn"
    "extendSingle_addr < length (heap s)"
    "callable (heap s ! extendSingle_addr) = Some ExtendSingleFn"
  using assms
  by (auto simp: loaded_def extend_addr_def implement_addr_def extendSingle_addr_def
           split: option.splits code.splits)

lemma call_extendSingle:
  "loaded s \<Longrightarrow> call (Suc n) s (Ref extendSingle_addr) this args
     = extendSingle_call (call n) s this args"
  using loaded_codes(5,6)[of s] by (simp add: call_code)

lemma call_extend:
  "loaded s \<Longrightarrow> call (Suc n) s (Ref extend_addr) this args = extend_call (call n) s this args"
  using loaded_codes(1,2)[of s] by (simp add: call_code)

lemma call_implement:
  "loaded s \<Longrightarrow> call (Suc n) s (Ref implement_addr) this args
     = implement_call (call n) s this args"
  using loaded_codes(3,4)[of s] by (simp add: call_code)

lemma is_Type_statics:
  assumes "is_Type s t"
  shows "field s t ''extend'' = Ref extend_addr"
    "field s t ''_extendSingle'' = Ref extendSingle_addr"
    "field s t ''implement'' = Ref implement_addr"
  using assms by (simp_all add: is_Type_def)

lemma is_Type_same_below:
  assumes "is_Type s d" "same_below (length (heap s)) s s'"
  shows "is_Type s' d"
proof -
  from assms(1) have d: "d < length (heap s)" by (simp add: is_Type_def)
  from is_Type_proto[OF assms(1)] obtain p where
    p: "field s d ''prototype'' = Ref p" "p < length (heap s)"
       "to_key (field s p ''className'') \<noteq> None" by blast
  have len: "length (heap s) \<le> length (heap s')" using assms(2) by (simp add: same_below_def)
  have f: "\<And>a k. a < length (heap s) \<Longrightarrow> field s' a k = field s a k"
    using same_below_field[OF assms(2)] by simp
  have "heap s' ! d = heap s ! d" using same_below_nth[OF assms(2) d] .
  with assms(1) d p len show ?thesis
    by (simp add: is_Type_def f)
qed

lemma definition_ok_same_below:
  assumes "definition_ok s v" "same_below (length (heap s)) s s'"
  shows "definition_ok s' v"
proof -
  from assms(1) have b: "bounded s v" by (simp add: definition_ok_def)
  have len: "length (heap s) \<le> length (heap s')" using assms(2) by (simp add: same_below_def)
  have b': "bounded s' v" using b len by (cases v) simp_all
  have isf: "is_fun s' v = is_fun s v"
    using is_fun_same_below[OF assms(2)] b by (simp add: bounded_alt)
  have g: "get_or s' v ''className'' = get_or s v ''className''"
    using get_or_same_below[OF assms(2)] b by (simp add: bounded_alt)
  show ?thesis
  proof (cases "is_fun s v")
    case True
    with assms(1) obtain d where d: "v = Ref d" "is_Type s d"
      by (cases v) (simp_all add: definition_ok_def)
    from is_Type_same_below[OF d(2) assms(2)] d(1) True isf b' show ?thesis
      by (simp add: definition_ok_def)
  next
    case False
    with assms(1) isf g b' show ?thesis by (simp add: definition_ok_def)
  qed
qed

lemma extendSingle_step:
  assumes L: "loaded s" and T: "is_Type s t" and D: "definition_ok s v"
  shows "\<exists>s' p child' nm o'.
           extendSingle_call (call (Suc n)) s (Ref t) [v] = Some (Ok (Ref (length (heap s))) s')
         \<and> field s t ''prototype'' = Ref p \<and> derived s p child' nm o' s'"
proof -
  from is_Type_proto[OF T] obtain p where
    p: "field s t ''prototype'' = Ref p" "p < length (heap s)"
       "to_key (field s p ''className'') \<noteq> None" by blast
  from D have b: "bounded s v" by (simp add: definition_ok_def)
  show ?thesis
  proof (cases "is_fun s v")
    case False
    with D have "to_key (get_or s v ''className'') \<noteq> None" by (simp add: definition_ok_def)
    with p(3) obtain nm where
      "to_key (if ''className'' \<in> set (for_in_keys s v)
               then get_or s v ''className'' else field s p ''className'') = Some nm"
      by (cases "''className'' \<in> set (for_in_keys s v)") auto
    from extendSingle_Type_plain[OF L T p(1) False b distinct_for_in_keys this, of n] p(1)
    show ?thesis by blast
  next
    case True
    with D obtain d where d: "v = Ref d" "is_Type s d"
      by (cases v) (simp_all add: definition_ok_def)
    from is_Type_proto[OF d(2)] obtain q where
      q: "field s d ''prototype'' = Ref q" "to_key (field s q ''className'') \<noteq> None" by blast
    with p(3) obtain nm where
      "to_key (if ''className'' \<in> set (for_in_keys s (Ref q))
               then field s q ''className'' else field s p ''className'') = Some nm"
      by (cases "''className'' \<in> set (for_in_keys s (Ref q))") auto
    from extendSingle_Type_ctor[OF L T p(1) d(2) q(1) this, of n] p(1) d(1)
    show ?thesis by blast
  qed
qed

lemma derivedD:
  assumes "derived s p child nm o' s'"
  shows "same_below (length (heap s)) s s'" "logged s' = logged s" "loaded s'"
    "is_Type s' (length (heap s))" "length (heap s) < length (heap s')"
    "field s' (length (heap s)) ''prototype'' = Ref o'"
    "classes s' = (classes s)(nm \<mapsto> Ref (length (heap s)))"
    "to_key (field s' o' ''className'') = Some nm"
    "\<And>k. k \<notin> set (for_in_keys s child) \<Longrightarrow> field s' o' k = field s p k"
    "o' < length (heap s')" "length (heap s) < o'" "\<not> extending s'"
    "lang s' = lang s" "unsafeMixin s' = unsafeMixin s"
    "proto (heap s' ! o') = Some p"
  using assms by (simp_all add: derived_def)

lemma take_same_below: "same_below (length (heap s)) s s' \<Longrightarrow> take (length (heap s)) (heap s') = heap s"
  by (simp add: same_below_def)

lemma extend_each_frame:
  assumes "loaded s" "is_Type s t" "\<forall>v \<in> set items. definition_ok s v"
  shows "\<exists>c s'. extend_each (call (Suc (Suc n))) items s (Ref t) = Some (Ok (Ref c) s')
           \<and> same_below (length (heap s)) s s' \<and> logged s' = logged s
           \<and> is_Type s' c \<and> loaded s'"
  using assms
proof (induction items arbitrary: s t)
  case Nil
  then show ?case by simp
next
  case (Cons v vs)
  from Cons.prems(3) have D: "definition_ok s v" by simp
  from extendSingle_step[OF Cons.prems(1,2) D, of n] obtain s1 p child' nm o' where
    es: "extendSingle_call (call (Suc n)) s (Ref t) [v] = Some (Ok (Ref (length (heap s))) s1)"
    and dv: "derived s p child' nm o' s1" by blast
  note d = derivedD[OF dv]
  have ok1: "\<forall>v \<in> set vs. definition_ok s1 v"
    using Cons.prems(3) definition_ok_same_below[OF _ d(1)] by simp
  from Cons.IH[OF d(3) d(4) ok1] obtain c s' where
    ih: "extend_each (call (Suc (Suc n))) vs s1 (Ref (length (heap s))) = Some (Ok (Ref c) s')"
      "same_below (length (heap s1)) s1 s'" "logged s' = logged s1" "is_Type s' c" "loaded s'"
    by blast
  have "same_below (length (heap s)) s1 s'"
    by (rule same_below_mono[OF ih(2)]) (use d(5) in simp)
  from same_below_trans[OF d(1) this] have sb: "same_below (length (heap s)) s s'" .
  have "extend_each (call (Suc (Suc n))) (v # vs) s (Ref t) = Some (Ok (Ref c) s')"
    using is_Type_statics(2)[OF Cons.prems(2)] call_extendSingle[OF Cons.prems(1)] es ih(1)
    by simp
  with sb ih(3,4,5) d(2) show ?case by simp
qed

subsection \<open>\<^verbatim>\<open>extend\<close>, \<^verbatim>\<open>implement\<close> and \<^verbatim>\<open>new\<close>\<close>

lemma invoke_extend:
  assumes "loaded s" "is_Type s t"
  shows "invoke (Suc n) s (Ref t) ''extend'' args = extend_call (call n) s (Ref t) args"
  using assms by (simp add: invoke_def is_Type_statics call_extend)

lemma invoke_implement:
  assumes "loaded s" "is_Type s t"
  shows "invoke (Suc n) s (Ref t) ''implement'' args = implement_call (call n) s (Ref t) args"
  using assms by (simp add: invoke_def is_Type_statics call_implement)

lemma extendSingle_via_this:
  assumes "loaded s" "is_Type s t"
  shows "call (Suc n) s (field s t ''_extendSingle'') (Ref t) [v]
           = extendSingle_call (call n) s (Ref t) [v]"
  using assms by (simp add: is_Type_statics call_extendSingle)


lemma Type_is_definition:
  assumes "loaded s" "is_Type s d"
  shows "instanceof_Object s (Ref d)" "definition_ok s (Ref d)"
proof -
  from assms(2) have d: "d < length (heap s)" "function_proto < d"
    "proto (heap s ! d) = Some function_proto" "callable (heap s ! d) \<noteq> None"
    by (auto simp: is_Type_def split: option.splits)
  from assms(1) d(1,2) have f: "function_proto < length (heap s)"
    "proto (heap s ! function_proto) = Some object_proto" by (simp_all add: loaded_def)
  have c0: "proto_chain (heap s) 0 = [0]"
    using f(1) by (subst proto_chain.simps) (auto split: option.splits)
  have "proto_chain (heap s) function_proto = [function_proto, object_proto]"
    using f c0 unfolding function_proto_def object_proto_def
    by (subst proto_chain.simps) simp
  then have "proto_chain (heap s) d = [d, function_proto, object_proto]"
    using d by (subst proto_chain.simps) simp
  then show "instanceof_Object s (Ref d)" by (simp add: instanceof_Object_def)
  show "definition_ok s (Ref d)"
    using d(1,4) assms(2) by (simp add: definition_ok_def is_fun_Ref)
qed



text \<open>
  Claim C4. \<^verbatim>\<open>implement\<close> with an array of definitions, \<^verbatim>\<open>implement\<close> with one definition, and
  \<^verbatim>\<open>extend\<close> return a Type and leave every object that existed before the call as it was, and
  the log as it was; a definition is an object whose \<^verbatim>\<open>className\<close> is a primitive, or a Type.
  All the instantiations of the call run with \<open>extending\<close> set, so no \<^verbatim>\<open>init\<close> runs: an effect
  that only \<^verbatim>\<open>init\<close> has on an existing object (a counter, say) cannot be seen after the call.
\<close>

theorem extension_suppresses_init:
  assumes "loaded s" "is_Type s t"
  shows "((\<forall>v \<in> set items. definition_ok s v) \<longrightarrow>
            (\<exists>c s'. invoke (Suc (Suc (Suc n))) s (Ref t) ''implement'' [Arr items]
                      = Some (Ok (Ref c) s')
                 \<and> take (length (heap s)) (heap s') = heap s \<and> logged s' = logged s))
       \<and> (definition_ok s d \<and> \<not> instanceof_Array d \<longrightarrow>
            (\<exists>c s'. invoke (Suc (Suc (Suc n))) s (Ref t) ''implement'' [d]
                      = Some (Ok (Ref c) s')
                 \<and> take (length (heap s)) (heap s') = heap s \<and> logged s' = logged s))
       \<and> (definition_ok s d \<and> instanceof_Object s d \<longrightarrow>
            (\<exists>c s'. invoke (Suc (Suc (Suc n))) s (Ref t) ''extend'' [d]
                      = Some (Ok (Ref c) s')
                 \<and> take (length (heap s)) (heap s') = heap s \<and> logged s' = logged s))"
proof (intro conjI impI)
  assume "\<forall>v \<in> set items. definition_ok s v"
  from extend_each_frame[OF assms this, of n] obtain c s' where
    "extend_each (call (Suc (Suc n))) items s (Ref t) = Some (Ok (Ref c) s')"
    "same_below (length (heap s)) s s'" "logged s' = logged s" by blast
  then show "\<exists>c s'. invoke (Suc (Suc (Suc n))) s (Ref t) ''implement'' [Arr items]
                      = Some (Ok (Ref c) s')
                 \<and> take (length (heap s)) (heap s') = heap s \<and> logged s' = logged s"
    by (auto simp: invoke_implement[OF assms] implement_call_Arr take_same_below)
next
  assume a: "definition_ok s d \<and> \<not> instanceof_Array d"
  from extendSingle_step[OF assms, of d n] a obtain s' p child' nm o' where
    es: "extendSingle_call (call (Suc n)) s (Ref t) [d] = Some (Ok (Ref (length (heap s))) s')"
    and dv: "derived s p child' nm o' s'" by blast
  note dd = derivedD[OF dv]
  have "implement_call (call (Suc (Suc n))) s (Ref t) [d]
          = extendSingle_call (call (Suc n)) s (Ref t) [d]"
    using a extendSingle_via_this[OF assms, of "Suc n" d]
    by (cases d) (simp_all add: implement_call_def arg_at_def instanceof_Array_def)
  with es dd(2) take_same_below[OF dd(1)]
  show "\<exists>c s'. invoke (Suc (Suc (Suc n))) s (Ref t) ''implement'' [d] = Some (Ok (Ref c) s')
                 \<and> take (length (heap s)) (heap s') = heap s \<and> logged s' = logged s"
    by (auto simp: invoke_implement[OF assms])
next
  assume a: "definition_ok s d \<and> instanceof_Object s d"
  from extendSingle_step[OF assms, of d n] a obtain s' p child' nm o' where
    es: "extendSingle_call (call (Suc n)) s (Ref t) [d] = Some (Ok (Ref (length (heap s))) s')"
    and dv: "derived s p child' nm o' s'" by blast
  note dd = derivedD[OF dv]
  have "invoke (Suc (Suc (Suc n))) s (Ref t) ''extend'' [d]
          = Some (Ok (Ref (length (heap s))) s')"
    using a es
    by (simp add: invoke_extend[OF assms] extend_call_def arg_at_def
          extendSingle_via_this[OF assms])
  with dd(2) take_same_below[OF dd(1)]
  show "\<exists>c s'. invoke (Suc (Suc (Suc n))) s (Ref t) ''extend'' [d] = Some (Ok (Ref c) s')
                 \<and> take (length (heap s)) (heap s') = heap s \<and> logged s' = logged s"
    by blast
qed

lemma default_membersD:
  assumes "default_members s p"
  shows "\<exists>i m. field s p ''init'' = Ref i \<and> i < length (heap s)
              \<and> callable (heap s ! i) = Some InitFn
              \<and> field s p ''mixin'' = Ref m \<and> m < length (heap s)
              \<and> callable (heap s ! m) = Some MixinFn"
  using assms
  by (auto simp: default_members_def split: val.splits option.splits code.splits)

lemma construct_default:
  assumes "is_Type s t" "field s t ''prototype'' = Ref p" "default_members s p"
  shows "construct (call (Suc (Suc (Suc n)))) s (Ref t) [] =
           Some (Ok (Ref (length (heap s)))
             (snd (alloc \<lparr>props = [], proto = Some p, callable = None\<rparr> s)))"
proof -
  let ?a = "length (heap s)"
  let ?s1 = "snd (alloc \<lparr>props = [], proto = Some p, callable = None\<rparr> s)"
  from is_Type_proto[OF assms(1)] assms(2) have p: "p < ?a" by simp
  from assms(1) have t: "t < ?a" "callable (heap s ! t) = Some ClassFn"
    by (auto simp: is_Type_def split: option.splits code.splits)
  from default_membersD[OF assms(3)] obtain i m where
    im: "field s p ''init'' = Ref i" "i < ?a" "callable (heap s ! i) = Some InitFn"
        "field s p ''mixin'' = Ref m" "m < ?a" "callable (heap s ! m) = Some MixinFn" by blast
  have f1: "\<And>k. field ?s1 ?a k = field s p k" using p by (rule field_alloc_new)
  have mix: "call (Suc n) ?s1 (Ref m) (Ref ?a) [Undefined, Bool True] = Some (Ok (Ref ?a) ?s1)"
    using im(5,6) by (simp add: call_code nth_append mixin_call_def arg_at_def for_in_keys_def)
  have ini: "call (Suc (Suc n)) ?s1 (Ref i) (Ref ?a) [] = Some (Ok Undefined ?s1)"
    using im(2,3) mix by (simp add: call_code nth_append init_call_def f1 im(4) arg_at_def)
  have cls: "call (Suc (Suc (Suc n))) ?s1 (Ref t) (Ref ?a) [] = Some (Ok Undefined ?s1)"
    using t ini by (simp add: call_code nth_append class_call_def f1 im(1))
  have "is_fun s (Ref t)" using t by (simp add: is_fun_Ref)
  then show ?thesis
    using cls assms(2)
    by (simp add: construct_def split_def Let_def is_object_def)
qed

text \<open>
  Claim C5. Called with an array, \<^verbatim>\<open>implement\<close> is the left-to-right iteration of the
  single-definition primitive: the Type made from one item is the receiver of the call
  for the next item, and the last Type made is returned (the receiver itself for an empty
  array). \<open>extend_each\<close> is this iteration written as a recursion over the list.
\<close>

theorem implement_sequential:
  assumes "loaded s"
  shows "call (Suc n) s (Ref implement_addr) this [Arr ds] = extend_each (call n) ds s this"
proof -
  from assms have "implement_addr < length (heap s)"
    "callable (heap s ! implement_addr) = Some ImplementFn"
    by (auto simp: loaded_def implement_addr_def extendSingle_addr_def
             split: option.splits code.splits)
  then show ?thesis by (simp add: call_code implement_call_Arr)
qed


subsection \<open>\<^verbatim>\<open>mixin\<close>\<close>



lemma get_or_logged [simp]: "get_or (s\<lparr>logged := x\<rparr>) v k = get_or s v k"
  by (simp add: get_or_def get_val_def split: val.splits)




lemma wraps_same_below:
  "wraps s r0 gs v \<Longrightarrow> same_below (length (heap s)) s s' \<Longrightarrow> wraps s' r0 gs v"
proof (induction gs arbitrary: v)
  case Nil
  then obtain b where b: "v = Ref b" "b < length (heap s)"
     "callable (heap s ! b) = Some (UserFn (returns r0))" by auto
  from same_below_nth[OF Nil.prems(2) b(2)] b Nil.prems(2) show ?case
    by (auto simp: same_below_def)
next
  case (Cons g gs)
  then obtain w f pv where w: "v = Ref w" "w < length (heap s)"
      "callable (heap s ! w) = Some (ParentFn (Ref f) pv)"
      "f < length (heap s)" "callable (heap s ! f) = Some (UserFn (calls_parent g))"
      "wraps s r0 gs pv" by auto
  from Cons.IH[OF w(6) Cons.prems(2)] have "wraps s' r0 gs pv" .
  with same_below_nth[OF Cons.prems(2) w(2)] same_below_nth[OF Cons.prems(2) w(4)] w Cons.prems(2)
  show ?case by (auto simp: same_below_def)
qed

lemma wraps_put [simp]: "wraps (put s a k x) r0 gs v = wraps s r0 gs v"
  by (induction gs arbitrary: v) simp_all

lemma wraps_is_fun: "wraps s r0 gs v \<Longrightarrow> is_fun s v \<and> bounded s v"
  by (cases gs) (auto simp: is_fun_Ref)

lemma call_chain:
  assumes "wraps s r0 gs v" "a < length (heap s)"
  shows "call (2 * length gs + 1 + n) s v (Ref a) args =
           Some (Ok (foldr (\<lambda>g r. g r) gs r0)
                  (if gs = [] then s else put s a ''parent'' (field s a ''parent'')))"
  using assms
proof (induction gs arbitrary: s v args)
  case Nil
  then show ?case by (auto simp: call_code returns_def)
next
  case (Cons g gs)
  from Cons.prems(1) obtain w f pv where w: "v = Ref w" "w < length (heap s)"
      "callable (heap s ! w) = Some (ParentFn (Ref f) pv)"
      "f < length (heap s)" "callable (heap s ! f) = Some (UserFn (calls_parent g))"
      "wraps s r0 gs pv" by auto
  let ?s1 = "put s a ''parent'' pv"
  let ?K = "2 * length gs + 1 + n"
  have w1: "wraps ?s1 r0 gs pv" using w(6) by simp
  have a1: "a < length (heap ?s1)" using Cons.prems(2) by simp
  have inner: "call ?K ?s1 pv (Ref a) [] = Some (Ok (foldr (\<lambda>g r. g r) gs r0) ?s1)"
    using Cons.IH[OF w1 a1, of "[]"] Cons.prems(2) by (simp add: put_twice)
  have child: "call (Suc ?K) ?s1 (Ref f) (Ref a) args
                 = Some (Ok (g (foldr (\<lambda>g r. g r) gs r0)) ?s1)"
    using w(4,5) Cons.prems(2) inner
    by (simp add: call_code calls_parent_def get_val_Ref)
  have "call (Suc (Suc ?K)) s (Ref w) (Ref a) args
          = Some (Ok (g (foldr (\<lambda>g r. g r) gs r0)) (put s a ''parent'' (field s a ''parent'')))"
    using w(2,3) Cons.prems(2) child
    by (simp add: call_code parent_call_def put_twice)
  then show ?case using w(1) by simp
qed

subsection \<open>Chains of overrides\<close>

lemma chain_keys_antimono:
  "set seen \<subseteq> set seen' \<Longrightarrow> set (chain_keys h as seen') \<subseteq> set (chain_keys h as seen)"
proof (induction as arbitrary: seen seen')
  case Nil
  show ?case by simp
next
  case (Cons a as)
  have "set (chain_keys h as (seen' @ map fst (props (h ! a))))
          \<subseteq> set (chain_keys h as (seen @ map fst (props (h ! a))))"
    using Cons.prems by (intro Cons.IH) auto
  with Cons.prems show ?case by auto
qed

lemma chain_keys_empty: "chain_keys h as [] = [] \<Longrightarrow> chain_keys h as seen = []"
  using chain_keys_antimono[of "[]" seen h as] by simp

lemma default_members_transfer:
  assumes "default_members s p" "same_below (length (heap s)) s s'"
    and "field s' o' ''init'' = field s p ''init''" "field s' o' ''mixin'' = field s p ''mixin''"
  shows "default_members s' o'"
proof -
  from default_membersD[OF assms(1)] obtain i m where
    im: "field s p ''init'' = Ref i" "i < length (heap s)" "callable (heap s ! i) = Some InitFn"
        "field s p ''mixin'' = Ref m" "m < length (heap s)" "callable (heap s ! m) = Some MixinFn"
    by blast
  have len: "length (heap s) \<le> length (heap s')" using assms(2) by (simp add: same_below_def)
  from same_below_nth[OF assms(2) im(2)] same_below_nth[OF assms(2) im(5)] im len assms(3,4)
  show ?thesis by (simp add: default_members_def)
qed

lemma method_literal_eq:
  "method_literal m body s =
     (Ref (Suc (Suc (length (heap s)))),
      snd (alloc \<lparr>props = [(m, Ref (length (heap s)), True)], proto = Some object_proto,
                  callable = None\<rparr> (snd (alloc_fun (UserFn body) s))))"
  by (simp add: method_literal_def split_def Let_def alloc_def)

lemma derived_key:
  assumes "derived s p child nm o' s'" "m \<in> set (for_in_keys s child)"
    and "bounded s (get_or s child m)" "bounded s (field s p m)"
  shows "if is_fun s (get_or s child m) \<and> is_fun s (field s p m)
         then (\<exists>w. field s' o' m = Ref w \<and> length (heap s) < w \<and> w < length (heap s')
                 \<and> callable (heap s' ! w) = Some (ParentFn (get_or s child m) (field s p m)))
         else field s' o' m = get_or s child m"
proof -
  from assms(1) have "\<forall>m. m \<in> set (for_in_keys s child) \<and> bounded s (get_or s child m)
            \<and> bounded s (field s p m)
          \<longrightarrow> (if is_fun s (get_or s child m) \<and> is_fun s (field s p m)
               then (\<exists>w. field s' o' m = Ref w \<and> length (heap s) < w \<and> w < length (heap s')
                      \<and> callable (heap s' ! w) = Some (ParentFn (get_or s child m) (field s p m)))
               else field s' o' m = get_or s child m)"
    unfolding derived_def by (elim conjE)
  from this[rule_format, of m] assms(2,3,4) show ?thesis by blast
qed

lemma literal_step:
  assumes L: "loaded s" and T: "is_Type s t" and P: "field s t ''prototype'' = Ref p"
    and K0: "for_in_keys s (Ref object_proto) = []"
    and M: "m \<noteq> ''className''"
    and PV: "bounded s (field s p m)"
  shows "\<exists>s' o'. (case method_literal m body s of
                   (d, s1) \<Rightarrow> invoke (Suc (Suc (Suc n))) s1 (Ref t) ''extend'' [d])
                 = Some (Ok (Ref (Suc (Suc (Suc (length (heap s)))))) s')
           \<and> loaded s' \<and> \<not> extending s' \<and> is_Type s' (Suc (Suc (Suc (length (heap s)))))
           \<and> for_in_keys s' (Ref object_proto) = []
           \<and> field s' (Suc (Suc (Suc (length (heap s))))) ''prototype'' = Ref o'
           \<and> (\<forall>k. k \<noteq> m \<longrightarrow> field s' o' k = field s p k)
           \<and> same_below (length (heap s)) s s'
           \<and> length (heap s) < length (heap s')
           \<and> callable (heap s' ! length (heap s)) = Some (UserFn body)
           \<and> (if is_fun s (field s p m)
               then (\<exists>w. field s' o' m = Ref w \<and> w < length (heap s')
                      \<and> callable (heap s' ! w)
                          = Some (ParentFn (Ref (length (heap s))) (field s p m)))
               else field s' o' m = Ref (length (heap s)))"
proof -
  let ?f = "length (heap s)"
  let ?d = "Suc (Suc ?f)"
  let ?s0 = "snd (alloc_fun (UserFn body) s)"
  define s1 where "s1 = snd (alloc \<lparr>props = [(m, Ref ?f, True)], proto = Some object_proto,
                          callable = None\<rparr> ?s0)"
  have len1: "length (heap s1) = Suc (Suc (Suc ?f))" by (simp add: s1_def)
  have zero: "object_proto < ?f"
    using loaded_codes(5)[OF L] by (cases "heap s") (simp_all add: object_proto_def extendSingle_addr_def)
  have sb0: "same_below ?f s ?s0" by (intro same_below_alloc_fun) simp
  have "same_below ?f ?s0 s1" unfolding s1_def by (intro same_below_alloc) simp
  from same_below_trans[OF sb0 this] have sb1: "same_below ?f s s1" .
  have hd: "heap s1 ! ?d = \<lparr>props = [(m, Ref ?f, True)], proto = Some object_proto,
                              callable = None\<rparr>"
    by (simp add: s1_def nth_append)
  have hf: "callable (heap s1 ! ?f) = Some (UserFn body)"
    by (simp add: s1_def nth_append)
  have L1: "loaded s1" using L sb1 by (rule loaded_same_below)
  have T1: "is_Type s1 t" using T sb1 by (rule is_Type_same_below)
  from is_Type_proto[OF T] P obtain nm where
    p: "p < ?f" "to_key (field s p ''className'') = Some nm" by auto
  have t: "t < ?f" using T by (simp add: is_Type_def)
  have f1: "\<And>a k. a < ?f \<Longrightarrow> field s1 a k = field s a k"
    using same_below_field[OF sb1] by simp
  have P1: "field s1 t ''prototype'' = Ref p" using f1[OF t] P by simp
  have nf: "\<not> is_fun s1 (Ref ?d)" by (simp add: is_fun_Ref hd)
  have b: "bounded s1 (Ref ?d)" by (simp add: len1)
  have pc: "proto_chain (heap s1) ?d = ?d # proto_chain (heap s1) object_proto"
    using zero len1 by (subst proto_chain.simps) (simp add: hd)
  obtain as where pc0: "proto_chain (heap s1) object_proto = object_proto # as"
    using proto_chain_hd[of object_proto "heap s1"] zero len1 by auto
  have io: "instanceof_Object s1 (Ref ?d)"
    by (simp add: instanceof_Object_def pc pc0)
  have k0: "for_in_keys s1 (Ref object_proto) = []"
    using same_below_keys[OF sb1 zero] K0 by simp
  then have "chain_keys (heap s1) (proto_chain (heap s1) object_proto) [] = []"
    by (simp add: for_in_keys_def)
  then have "chain_keys (heap s1) (proto_chain (heap s1) object_proto) [m] = []"
    by (rule chain_keys_empty)
  then have keys: "for_in_keys s1 (Ref ?d) = [m]"
    by (simp add: for_in_keys_def pc hd)
  have N: "to_key (if ''className'' \<in> set (for_in_keys s1 (Ref ?d))
                   then get_or s1 (Ref ?d) ''className'' else field s1 p ''className'') = Some nm"
    using M p by (simp add: keys f1)
  from extendSingle_Type_plain[OF L1 T1 P1 nf b distinct_for_in_keys N, of n]
  obtain s' where es: "extendSingle_call (call (Suc n)) s1 (Ref t) [Ref ?d]
                         = Some (Ok (Ref (length (heap s1))) s')"
    and dv: "derived s1 p (Ref ?d) nm (Suc (Suc (length (heap s1)))) s'" by blast
  note dd = derivedD[OF dv]
  let ?o = "Suc (Suc (length (heap s1)))"
  have inv: "invoke (Suc (Suc (Suc n))) s1 (Ref t) ''extend'' [Ref ?d]
          = Some (Ok (Ref (Suc (Suc (Suc ?f)))) s')"
    using io es
    by (simp add: invoke_extend[OF L1 T1] extend_call_def arg_at_def
          extendSingle_via_this[OF L1 T1] len1)
  have "same_below ?f s1 s'"
    by (rule same_below_mono[OF dd(1)]) (simp add: len1)
  from same_below_trans[OF sb1 this] have sb: "same_below ?f s s'" .
  have k': "for_in_keys s' (Ref object_proto) = []"
    using same_below_keys[OF sb zero] K0 by simp
  have inh: "\<And>k. k \<noteq> m \<Longrightarrow> field s' ?o k = field s p k"
    using dd(9) p(1) by (simp add: keys f1)
  have inh': "\<forall>k. k \<noteq> m \<longrightarrow> field s' ?o k = field s p k" using inh by simp
  have hf': "callable (heap s' ! ?f) = Some (UserFn body)"
    using same_below_nth[OF dd(1), of ?f] hf by (simp add: len1)
  have own: "field s1 ?d m = Ref ?f"
    by (rule field_own) (simp_all add: own_val_def hd len1)
  have bpv: "bounded s1 (field s p m)" using PV by (cases "field s p m") (simp_all add: len1)
  have isf: "is_fun s1 (field s p m) = is_fun s (field s p m)"
    using is_fun_same_below[OF sb1] PV by (simp add: bounded_alt)
  have isf_f: "is_fun s1 (Ref ?f)" by (simp add: is_fun_Ref hf len1)
  have "if is_fun s1 (get_or s1 (Ref ?d) m) \<and> is_fun s1 (field s1 p m)
               then (\<exists>w. field s' ?o m = Ref w \<and> length (heap s1) < w \<and> w < length (heap s')
                      \<and> callable (heap s' ! w)
                          = Some (ParentFn (get_or s1 (Ref ?d) m) (field s1 p m)))
               else field s' ?o m = get_or s1 (Ref ?d) m"
    by (rule derived_key[OF dv]) (simp_all add: keys own f1[OF p(1)] bpv len1)
  then have fin: "if is_fun s (field s p m)
               then (\<exists>w. field s' ?o m = Ref w \<and> w < length (heap s')
                      \<and> callable (heap s' ! w) = Some (ParentFn (Ref ?f) (field s p m)))
               else field s' ?o m = Ref ?f"
    using isf isf_f by (auto simp: own f1[OF p(1)])
  have lens: "?f < length (heap s')" using dd(5) by (simp add: len1)
  show ?thesis
    unfolding method_literal_eq prod.case s1_def[symmetric]
    using inv dd(3) dd(12) dd(4) k' dd(6) inh' sb lens hf' fin
    by (intro exI[of _ s'] exI[of _ ?o] conjI) (simp_all add: len1)
qed

lemma override_step:
  assumes L: "loaded s" and T: "is_Type s t" and P: "field s t ''prototype'' = Ref p"
    and K0: "for_in_keys s (Ref object_proto) = []" and DM: "default_members s p"
    and M: "m \<noteq> ''className''" "m \<noteq> ''init''" "m \<noteq> ''mixin''"
    and PV: "bounded s (field s p m)"
  shows "\<exists>s' o'. (case method_literal m body s of
                   (d, s1) \<Rightarrow> invoke (Suc (Suc (Suc n))) s1 (Ref t) ''extend'' [d])
                 = Some (Ok (Ref (Suc (Suc (Suc (length (heap s)))))) s')
           \<and> loaded s' \<and> is_Type s' (Suc (Suc (Suc (length (heap s)))))
           \<and> for_in_keys s' (Ref object_proto) = []
           \<and> field s' (Suc (Suc (Suc (length (heap s))))) ''prototype'' = Ref o'
           \<and> default_members s' o'
           \<and> same_below (length (heap s)) s s'
           \<and> length (heap s) < length (heap s')
           \<and> callable (heap s' ! length (heap s)) = Some (UserFn body)
           \<and> (if is_fun s (field s p m)
               then (\<exists>w. field s' o' m = Ref w \<and> w < length (heap s')
                      \<and> callable (heap s' ! w)
                          = Some (ParentFn (Ref (length (heap s))) (field s p m)))
               else field s' o' m = Ref (length (heap s)))"
proof -
  from literal_step[OF L T P K0 M(1) PV, where body = body and n = n] obtain s' o' where
    r: "(case method_literal m body s of
          (d, s1) \<Rightarrow> invoke (Suc (Suc (Suc n))) s1 (Ref t) ''extend'' [d])
        = Some (Ok (Ref (Suc (Suc (Suc (length (heap s)))))) s')"
      "loaded s'" "is_Type s' (Suc (Suc (Suc (length (heap s)))))"
      "for_in_keys s' (Ref object_proto) = []"
      "field s' (Suc (Suc (Suc (length (heap s))))) ''prototype'' = Ref o'"
    and inh: "\<forall>k. k \<noteq> m \<longrightarrow> field s' o' k = field s p k"
    and r': "same_below (length (heap s)) s s'" "length (heap s) < length (heap s')"
      "callable (heap s' ! length (heap s)) = Some (UserFn body)"
      "if is_fun s (field s p m)
       then (\<exists>w. field s' o' m = Ref w \<and> w < length (heap s')
               \<and> callable (heap s' ! w)
                   = Some (ParentFn (Ref (length (heap s))) (field s p m)))
       else field s' o' m = Ref (length (heap s))"
    by (elim exE conjE) blast
  have dm: "default_members s' o'"
    by (rule default_members_transfer[OF DM r'(1)]) (use inh M(2,3) in simp_all)
  show ?thesis
    by (intro exI[of _ s'] exI[of _ o'] conjI) (fact r r' dm)+
qed

lemma overrides_chain:
  assumes "overriding s t m r0 hs" "m \<noteq> ''className''" "m \<noteq> ''init''" "m \<noteq> ''mixin''"
  shows "\<exists>t' s'. extend_overrides (Suc (Suc (Suc n))) m (map calls_parent gs) s (Ref t)
                   = Some (Ok (Ref t') s')
               \<and> overriding s' t' m r0 (rev gs @ hs)"
  using assms(1)
proof (induction gs arbitrary: s t hs)
  case Nil
  then show ?case by simp
next
  case (Cons g gs)
  from Cons.prems obtain o' where
    L: "loaded s" and T: "is_Type s t" and K0: "for_in_keys s (Ref object_proto) = []"
    and P: "field s t ''prototype'' = Ref o'" and DM: "default_members s o'"
    and W: "wraps s r0 hs (field s o' m)"
    by (auto simp: overriding_def)
  from wraps_is_fun[OF W] have isf: "is_fun s (field s o' m)" and bd: "bounded s (field s o' m)"
    by simp_all
  let ?t1 = "Suc (Suc (Suc (length (heap s))))"
  from override_step[OF L T P K0 DM assms(2,3,4) bd, where body = "calls_parent g" and n = n] isf
  obtain s1 o1 w where
    st: "(case method_literal m (calls_parent g) s of
           (d, s1) \<Rightarrow> invoke (Suc (Suc (Suc n))) s1 (Ref t) ''extend'' [d])
         = Some (Ok (Ref ?t1) s1)"
    and L1: "loaded s1" and T1: "is_Type s1 ?t1"
    and K1: "for_in_keys s1 (Ref object_proto) = []"
    and P1: "field s1 ?t1 ''prototype'' = Ref o1" and DM1: "default_members s1 o1"
    and sb: "same_below (length (heap s)) s s1" and len: "length (heap s) < length (heap s1)"
    and cf: "callable (heap s1 ! length (heap s)) = Some (UserFn (calls_parent g))"
    and fw: "field s1 o1 m = Ref w" "w < length (heap s1)"
            "callable (heap s1 ! w) = Some (ParentFn (Ref (length (heap s))) (field s o' m))"
    by (simp only: if_True) blast
  have "wraps s1 r0 hs (field s o' m)" using W sb by (rule wraps_same_below)
  with fw len cf have "wraps s1 r0 (g # hs) (field s1 o1 m)" by simp
  with L1 T1 K1 P1 DM1 have ov: "overriding s1 ?t1 m r0 (g # hs)"
    by (auto simp: overriding_def)
  from Cons.IH[OF ov] obtain t' s' where
    ih: "extend_overrides (Suc (Suc (Suc n))) m (map calls_parent gs) s1 (Ref ?t1)
           = Some (Ok (Ref t') s')"
        "overriding s' t' m r0 (rev gs @ g # hs)" by blast
  have "extend_overrides (Suc (Suc (Suc n))) m (map calls_parent (g # gs)) s (Ref t)
          = Some (Ok (Ref t') s')"
    using st ih(1) by (simp add: split_def)
  with ih(2) show ?case by auto
qed

lemma overriding_call:
  assumes "overriding s t m r0 hs"
  shows "\<exists>s'. call_then (construct (call (2 * length hs + 3 + n)) s (Ref t) [])
                 (\<lambda>inst s2. invoke (2 * length hs + 3 + n) s2 inst m [])
               = Some (Ok (foldr (\<lambda>g r. g r) hs r0) s')"
proof -
  from assms obtain o' where
    T: "is_Type s t" and P: "field s t ''prototype'' = Ref o'" and DM: "default_members s o'"
    and W: "wraps s r0 hs (field s o' m)"
    by (auto simp: overriding_def)
  let ?a = "length (heap s)"
  let ?s1 = "snd (alloc \<lparr>props = [], proto = Some o', callable = None\<rparr> s)"
  from is_Type_proto[OF T] P have o: "o' < ?a" by simp
  have fu: "2 * length hs + 3 + n = Suc (Suc (Suc (2 * length hs + n)))" by simp
  have con: "construct (call (2 * length hs + 3 + n)) s (Ref t) [] = Some (Ok (Ref ?a) ?s1)"
    unfolding fu using T P DM by (rule construct_default)
  have sb: "same_below ?a s ?s1" by (intro same_below_alloc) simp
  have w1: "wraps ?s1 r0 hs (field s o' m)" using W sb by (rule wraps_same_below)
  have f1: "field ?s1 ?a m = field s o' m" using o by (rule field_alloc_new)
  have a1: "?a < length (heap ?s1)" by simp
  have fu2: "2 * length hs + 3 + n = 2 * length hs + 1 + (n + 2)" by simp
  have "invoke (2 * length hs + 3 + n) ?s1 (Ref ?a) m [] =
          Some (Ok (foldr (\<lambda>g r. g r) hs r0)
                 (if hs = [] then ?s1 else put ?s1 ?a ''parent'' (field ?s1 ?a ''parent'')))"
    unfolding invoke_def get_then_Ref f1 fu2 using w1 a1 by (rule call_chain)
  with con show ?thesis by simp
qed

text \<open>
  Claim C1. Start from a Type with the default constructor and no member \<open>m\<close>, and extend it
  successively with definitions of \<open>m\<close>: first a method returning \<open>r0\<close>, then for each \<open>g\<close> in
  \<open>gs\<close> a method returning \<open>g\<close> applied to the result of \<^verbatim>\<open>this.parent()\<close>. Calling \<open>m\<close> on an
  instance of the last Type returns \<open>gs\<close> folded over \<open>r0\<close> from the left: each override
  reaches exactly the definition before it, and the first definition is reached last.
\<close>

theorem parent_chain_order:
  assumes "loaded s" "is_Type s t" "field s t ''prototype'' = Ref p" "default_members s p"
    and "for_in_keys s (Ref object_proto) = []"
    and "field s p m = Undefined" "m \<noteq> ''className''"
  shows "\<exists>s'. override_program (2 * length gs + 3 + n) m
                 (returns r0 # map calls_parent gs) s (Ref t)
               = Some (Ok (foldl (\<lambda>r g. g r) r0 gs) s')"
proof -
  from default_membersD[OF assms(4)] assms(6) have M: "m \<noteq> ''init''" "m \<noteq> ''mixin''"
    by auto
  have fu: "2 * length gs + 3 + n = Suc (Suc (Suc (2 * length gs + n)))" by simp
  let ?N = "2 * length gs + 3 + n"
  let ?t1 = "Suc (Suc (Suc (length (heap s))))"
  have bd: "bounded s (field s p m)" using assms(6) by simp
  have nf: "\<not> is_fun s (field s p m)" using assms(6) by simp
  from override_step[OF assms(1,2,3,5,4,7) M bd, where body = "returns r0"
      and n = "2 * length gs + n"] nf
  obtain s1 o1 where
    st: "(case method_literal m (returns r0) s of
           (d, s1) \<Rightarrow> invoke ?N s1 (Ref t) ''extend'' [d])
         = Some (Ok (Ref ?t1) s1)"
    and L1: "loaded s1" and T1: "is_Type s1 ?t1"
    and K1: "for_in_keys s1 (Ref object_proto) = []"
    and P1: "field s1 ?t1 ''prototype'' = Ref o1" and DM1: "default_members s1 o1"
    and len: "length (heap s) < length (heap s1)"
    and cf: "callable (heap s1 ! length (heap s)) = Some (UserFn (returns r0))"
    and fw: "field s1 o1 m = Ref (length (heap s))"
    unfolding fu by (simp only: if_False) blast
  have "wraps s1 r0 [] (field s1 o1 m)" using fw len cf by simp
  with L1 T1 K1 P1 DM1 have ov: "overriding s1 ?t1 m r0 []"
    by (auto simp: overriding_def)
  from overrides_chain[OF ov assms(7) M, of "2 * length gs + n" gs] obtain t' s2 where
    ch: "extend_overrides ?N m (map calls_parent gs) s1 (Ref ?t1) = Some (Ok (Ref t') s2)"
    and ov2: "overriding s2 t' m r0 (rev gs)"
    unfolding fu by auto
  from overriding_call[OF ov2, of n] obtain s' where
    fin: "call_then (construct (call ?N) s2 (Ref t') [])
                 (\<lambda>inst s3. invoke ?N s3 inst m [])
               = Some (Ok (foldr (\<lambda>g r. g r) (rev gs) r0) s')"
    by auto
  have "foldr (\<lambda>g r. g r) (rev gs) r0 = foldl (\<lambda>r g. g r) r0 gs"
    by (simp add: foldr_conv_foldl)
  with fin st ch show ?thesis
    by (simp add: override_program_def split_def)
qed

subsection \<open>The module body\<close>

lemma module_heap:
  "heap (module_state l tab) =
     [\<lparr>props = [], proto = None, callable = None\<rparr>,
      \<lparr>props = [], proto = Some 0, callable = None\<rparr>,
      \<lparr>props = [(''prototype'', Ref 3, False)], proto = Some 1, callable = Some ExtendFn\<rparr>,
      \<lparr>props = [(''constructor'', Ref 2, False)], proto = Some 0, callable = None\<rparr>,
      \<lparr>props = [(''prototype'', Ref 5, False)], proto = Some 1, callable = Some ImplementFn\<rparr>,
      \<lparr>props = [(''constructor'', Ref 4, False)], proto = Some 0, callable = None\<rparr>,
      \<lparr>props = [(''prototype'', Ref 7, False)], proto = Some 1, callable = Some ExtendSingleFn\<rparr>,
      \<lparr>props = [(''constructor'', Ref 6, False)], proto = Some 0, callable = None\<rparr>,
      \<lparr>props = [(''prototype'', Ref 9, False)], proto = Some 1, callable = Some EmptyFn\<rparr>,
      \<lparr>props = [(''constructor'', Ref 8, False)], proto = Some 0, callable = None\<rparr>,
      \<lparr>props = [(''prototype'', Ref 11, False)], proto = Some 1, callable = Some InitFn\<rparr>,
      \<lparr>props = [(''constructor'', Ref 10, False)], proto = Some 0, callable = None\<rparr>,
      \<lparr>props = [(''prototype'', Ref 13, False)], proto = Some 1, callable = Some MixinFn\<rparr>,
      \<lparr>props = [(''constructor'', Ref 12, False)], proto = Some 0, callable = None\<rparr>,
      \<lparr>props = [(''prototype'', Ref 15, False)], proto = Some 1, callable = Some BindGameFn\<rparr>,
      \<lparr>props = [(''constructor'', Ref 14, False)], proto = Some 0, callable = None\<rparr>,
      \<lparr>props = [(''prototype'', Ref 17, False)], proto = Some 1, callable = Some SerializeFn\<rparr>,
      \<lparr>props = [(''constructor'', Ref 16, False)], proto = Some 0, callable = None\<rparr>,
      \<lparr>props = [(''className'', Str ''Class'', True), (''game'', Null, True),
                 (''id'', Null, True), (''clientID'', Null, True), (''init'', Ref 10, True),
                 (''mixin'', Ref 12, True), (''_bindGame'', Ref 14, True),
                 (''serialize'', Ref 16, True)],
        proto = Some 0, callable = None\<rparr>]"
  by (simp add: module_state_def empty_state_def alloc_fun_def alloc_def Let_def
        object_proto_def function_proto_def)

lemma module_fields [simp]:
  "extending (module_state l tab) = False"
  "classes (module_state l tab) = Map.empty"
  "logged (module_state l tab) = []"
  "lang (module_state l tab) = l"
  "unsafeMixin (module_state l tab) = tab"
  by (simp_all add: module_state_def empty_state_def alloc_fun_def alloc_def Let_def)

lemma module_length [simp]: "length (heap (module_state l tab)) = 19"
  by (simp add: module_heap)

lemma module_chain:
  "proto_chain (heap (module_state l tab)) 0 = [0]"
  "proto_chain (heap (module_state l tab)) 1 = [1, 0]"
  "proto_chain (heap (module_state l tab)) 9 = [9, 0]"
  "proto_chain (heap (module_state l tab)) 18 = [18, 0]"
  by (simp_all add: proto_chain.simps module_heap)

lemma module_loaded: "loaded (module_state l tab)"
  by (simp add: loaded_def extend_addr_def implement_addr_def extendSingle_addr_def
        function_proto_def object_proto_def module_heap)

lemma module_root:
  "inert (module_state l tab) 8" "field (module_state l tab) 8 ''prototype'' = Ref 9"
  by (simp_all add: inert_def field_def lookup_unfold own_val_def module_heap)

lemma module_literal_keys:
  "for_in_keys (module_state l tab) (Ref 18) =
     [''className'', ''game'', ''id'', ''clientID'', ''init'', ''mixin'', ''_bindGame'',
      ''serialize'']"
  by (simp add: for_in_keys_def module_chain) (simp add: module_heap)

lemma module_object_keys: "for_in_keys (module_state l tab) (Ref 0) = []"
  by (simp add: for_in_keys_def module_chain) (simp add: module_heap)

lemma module_literal_fields:
  "field (module_state l tab) 18 ''className'' = Str ''Class''"
  "field (module_state l tab) 18 ''game'' = Null"
  "field (module_state l tab) 18 ''id'' = Null"
  "field (module_state l tab) 18 ''clientID'' = Null"
  "field (module_state l tab) 18 ''init'' = Ref 10"
  "field (module_state l tab) 18 ''mixin'' = Ref 12"
  "field (module_state l tab) 18 ''_bindGame'' = Ref 14"
  "field (module_state l tab) 18 ''serialize'' = Ref 16"
  by (simp_all add: field_def lookup_def module_chain own_val_def) (simp_all add: module_heap)

lemma module_proto9: "field (module_state l tab) 9 k = (if k = ''constructor'' then Ref 8 else Undefined)"
  by (simp add: field_def lookup_def module_chain) (simp add: module_heap own_val_def)

lemma module_literal_other:
  "k \<notin> set (for_in_keys (module_state l tab) (Ref 18)) \<Longrightarrow>
   field (module_state l tab) 18 k = Undefined"
  unfolding module_literal_keys
  by (simp add: field_def lookup_def module_chain) (simp add: module_heap own_val_def)

lemma module_literal_get:
  "get_or (module_state l tab) (Ref 18) k = field (module_state l tab) 18 k"
  by (simp add: get_or_Ref field_def)

lemma load_module_derived:
  "\<exists>s'. load_module (Suc (Suc n)) l tab = Some (Ok (Ref 19) s')
      \<and> derived (module_state l tab) 9 (Ref 18) ''Class'' 21 s'"
proof -
  let ?s = "module_state l tab"
  have nf: "\<not> is_fun ?s (Ref 18)" by (simp add: is_fun_Ref module_heap)
  have b: "bounded ?s (Ref 18)" by (simp add: bounded_alt)
  have d: "distinct (for_in_keys ?s (Ref 18))" by (simp add: module_literal_keys)
  have N: "to_key (if ''className'' \<in> set (for_in_keys ?s (Ref 18))
             then get_or ?s (Ref 18) ''className'' else field ?s 9 ''className'') = Some ''Class''"
    by (simp add: module_literal_keys module_literal_get module_literal_fields to_key_def)
  have p: "9 < length (heap ?s)" "to_key (field ?s 9 ''className'') \<noteq> None"
    by (simp_all add: module_proto9 to_key_def)
  from extendSingle_inert_plain[OF module_loaded module_root p nf b d N, of n]
  obtain s' where e: "extendSingle_call (call (Suc n)) ?s (Ref 8) [Ref 18]
                        = Some (Ok (Ref (length (heap ?s))) s')"
    and dv: "derived ?s 9 (Ref 18) ''Class'' (Suc (Suc (length (heap ?s)))) s'" by blast
  have c: "load_module (Suc (Suc n)) l tab = extendSingle_call (call (Suc n)) ?s (Ref 8) [Ref 18]"
    unfolding load_module_def root_addr_def literal_addr_def extendSingle_addr_def
    by (simp add: call_code module_heap)
  have n21: "Suc (Suc (length (heap ?s))) = 21" by simp
  show ?thesis using e dv unfolding c n21 by simp
qed

subsection \<open>Examples: \<^verbatim>\<open>serialize\<close> and a child that throws\<close>

lemma base_length [simp]: "length (heap base_state) = 19"
  by (simp add: base_state_def)

theorem serialize_snapshot_witness:
  "16 < length (heap base_state) \<and> callable (heap base_state ! 16) = Some SerializeFn \<and>
   call 1 base_state (Ref 16) (Ref 18) [] =
     Some (Ok (Ref 19)
       (base_state\<lparr>heap := heap base_state @
           [\<lparr>props = [(''id'', Null, True), (''clientID'', Null, True),
                      (''className'', Str ''Class'', True)],
             proto = Some object_proto, callable = None\<rparr>]\<rparr>))"
  using serialize_snapshot[of 16 base_state 0 18 "[]"]
  by (simp add: base_state_def module_literal_fields) (simp add: module_heap)

theorem parent_left_bound_on_throw_witness:
  "21 < length (heap throw_state) \<and>
   callable (heap throw_state ! 21) = Some (ParentFn (Ref 19) (Ref 10)) \<and>
   18 < length (heap throw_state) \<and>
   field throw_state 18 ''parent'' = Undefined \<and>
   call 2 throw_state (Ref 21) (Ref 18) [] =
     Some (Err (Thrown (Str ''boom'')) (put throw_state 18 ''parent'' (Ref 10))) \<and>
   field (put throw_state 18 ''parent'' (Ref 10)) 18 ''parent'' = Ref 10"
proof -
  let ?s0 = "snd (alloc_fun (UserFn thrower) base_state)"
  have len: "length (heap throw_state) = 23" "length (heap ?s0) = 21"
    by (simp_all add: throw_state_def base_state_def)
  have w: "callable (heap throw_state ! 21) = Some (ParentFn (Ref 19) (Ref 10))"
    using alloc_fun_simps(8)[of "ParentFn (Ref 19) (Ref 10)" ?s0]
    by (simp add: throw_state_def base_state_def)
  have "callable (heap ?s0 ! 19) = Some (UserFn thrower)"
    using alloc_fun_simps(8)[of "UserFn thrower" base_state] by (simp add: base_state_def)
  then have c: "callable (heap throw_state ! 19) = Some (UserFn thrower)"
    by (simp add: throw_state_def)
  have u: "field throw_state 18 ''parent'' = Undefined"
    by (simp add: throw_state_def) (simp add: base_state_def module_literal_other module_literal_keys)
  have run: "call 1 (put throw_state 18 ''parent'' (Ref 10)) (Ref 19) (Ref 18) [] =
               Some (Err (Thrown (Str ''boom'')) (put throw_state 18 ''parent'' (Ref 10)))"
    unfolding One_nat_def using c by (simp add: call_code put_callable len thrower_def)
  show ?thesis
    using parent_left_bound_on_throw[of 21 throw_state "Ref 19" "Ref 10" 18 1 "[]"
        "Thrown (Str ''boom'')" "put throw_state 18 ''parent'' (Ref 10)"] w u run
    by (simp add: len numeral_2_eq_2)
qed

subsection \<open>The state after loading\<close>

lemma class_state_derived:
  "load_module 2 l tab = Some (Ok (Ref 19) (class_state l tab))
   \<and> derived (module_state l tab) 9 (Ref 18) ''Class'' 21 (class_state l tab)"
proof -
  from load_module_derived[of 0 l tab] obtain s' where
    e: "load_module (Suc (Suc 0)) l tab = Some (Ok (Ref 19) s')"
    and d: "derived (module_state l tab) 9 (Ref 18) ''Class'' 21 s'" by blast
  have "class_state l tab = s'"
    using e by (simp add: class_state_def state_of_def numeral_2_eq_2)
  with e d show ?thesis by (simp add: numeral_2_eq_2)
qed

lemma class_state_frame: "same_below 19 (module_state l tab) (class_state l tab)"
  using derivedD(1)[OF class_state_derived[of l tab, THEN conjunct2]] by simp

lemma class_state_facts:
  "loaded (class_state l tab)"
  "is_Type (class_state l tab) 19"
  "field (class_state l tab) 19 ''prototype'' = Ref 21"
  "to_key (field (class_state l tab) 21 ''className'') = Some ''Class''"
  "21 < length (heap (class_state l tab))"
  "logged (class_state l tab) = []"
  "lang (class_state l tab) = l"
  "unsafeMixin (class_state l tab) = tab"
  "classes (class_state l tab) = [''Class'' \<mapsto> Ref 19]"
  using derivedD[OF class_state_derived[of l tab, THEN conjunct2]] by simp_all

lemma class_state_inherit:
  assumes "k \<notin> set (for_in_keys (module_state l tab) (Ref 18))"
  shows "field (class_state l tab) 21 k = field (module_state l tab) 9 k"
  using derivedD(9)[OF class_state_derived[THEN conjunct2] assms] .

lemma class_state_member:
  assumes "m \<in> set (for_in_keys (module_state l tab) (Ref 18))"
  shows "field (class_state l tab) 21 m = field (module_state l tab) 18 m"
proof -
  let ?s = "module_state l tab"
  from assms have m: "m \<noteq> ''constructor''" by (auto simp: module_literal_keys)
  then have u: "field ?s 9 m = Undefined" by (simp add: module_proto9)
  have b: "bounded ?s (get_or ?s (Ref 18) m)"
    using assms by (auto simp: module_literal_keys module_literal_get module_literal_fields)
  have b': "bounded ?s (field ?s 9 m)" by (simp add: u)
  have nf: "\<not> is_fun ?s (field ?s 9 m)" by (simp add: u is_fun_def)
  from derived_key[OF class_state_derived[THEN conjunct2] assms b b'] nf
  show ?thesis by (simp add: module_literal_get)
qed

lemma class_state_defaults: "default_members (class_state l tab) 21"
proof -
  let ?s = "module_state l tab" and ?c = "class_state l tab"
  have i: "field ?c 21 ''init'' = Ref 10" "field ?c 21 ''mixin'' = Ref 12"
    by (simp_all add: class_state_member module_literal_keys module_literal_fields)
  have n: "heap ?c ! 10 = heap ?s ! 10" "heap ?c ! 12 = heap ?s ! 12"
    by (simp_all add: same_below_nth[OF class_state_frame])
  have l: "10 < length (heap ?c)" "12 < length (heap ?c)"
    using class_state_facts(5)[of l tab] by simp_all
  show ?thesis
    unfolding default_members_def i using l by (simp add: n) (simp add: module_heap)
qed

lemma class_state_object_keys: "for_in_keys (class_state l tab) (Ref 0) = []"
  using same_below_keys[OF class_state_frame, of 0 l tab] by (simp add: module_object_keys)

lemma class_state_unset:
  assumes "k \<notin> set (for_in_keys (module_state l tab) (Ref 18))" "k \<noteq> ''constructor''"
  shows "field (class_state l tab) 21 k = Undefined"
  using class_state_inherit[OF assms(1)] assms(2) by (simp add: module_proto9)

subsection \<open>Object literals\<close>

lemma pristine_lookup: "pristine s \<Longrightarrow> lookup (heap s) object_proto k = None"
  by (simp add: pristine_def lookup_unfold own_val_def object_proto_def)

lemma pristine_same_below: "pristine s \<Longrightarrow> same_below n s s' \<Longrightarrow> 0 < n \<Longrightarrow> pristine s'"
  using same_below_nth[of n s s' 0]
  by (auto simp: pristine_def object_proto_def same_below_def)

lemma own_val_plain: "own_val (plain kvs) k = map_of kvs k"
  by (induction kvs) (auto simp: own_val_def plain_def)

lemma plain_object:
  assumes "pristine s" "d < length (heap s)" "heap s ! d = plain kvs" "0 < d"
  shows "lookup (heap s) d k = map_of kvs k"
    and "field s d k = (case map_of kvs k of Some v \<Rightarrow> v | None \<Rightarrow> Undefined)"
    and "\<not> is_fun s (Ref d)"
    and "instanceof_Object s (Ref d)"
    and "for_in_keys s (Ref d) = remdups (map fst kvs)"
    and "bounded s (Ref d)"
proof -
  have z: "0 < length (heap s)" using assms(2) by (cases "heap s") simp_all
  show l: "lookup (heap s) d k = map_of kvs k"
    using assms pristine_lookup[OF assms(1), of k]
    by (simp add: lookup_unfold[of d] own_val_plain) (simp add: plain_def object_proto_def split: option.splits)
  then show "field s d k = (case map_of kvs k of Some v \<Rightarrow> v | None \<Rightarrow> Undefined)"
    by (simp add: field_def)
  show "\<not> is_fun s (Ref d)" using assms by (simp add: is_fun_Ref plain_def)
  have c0: "proto_chain (heap s) 0 = [0]"
    using assms(1) z by (simp add: proto_chain.simps[of _ 0] pristine_def object_proto_def)
  have c: "proto_chain (heap s) d = [d, 0]"
    using assms c0 by (simp add: proto_chain.simps[of _ d] plain_def object_proto_def)
  show "instanceof_Object s (Ref d)" by (simp add: instanceof_Object_def c object_proto_def)
  have "map fst (filter (\<lambda>p. snd (snd p)) (map (\<lambda>(k, v). (k, v, True)) kvs)) = map fst kvs"
    by (induction kvs) auto
  then show "for_in_keys s (Ref d) = remdups (map fst kvs)"
    using assms(1,3) by (simp add: for_in_keys_def c) (simp add: plain_def pristine_def object_proto_def)
  show "bounded s (Ref d)" using assms(2) by simp
qed

lemma module_pristine: "pristine (module_state l tab)"
  by (simp add: pristine_def object_proto_def module_heap)

lemma demo_pristine: "pristine demo_state"
  unfolding demo_state_def
  using module_pristine class_state_frame by (rule pristine_same_below) simp

lemma demo_nonempty [simp]: "heap demo_state \<noteq> []"
  using demo_pristine by (simp add: pristine_def)

lemma demo_facts:
  "loaded demo_state"
  "is_Type demo_state 19"
  "field demo_state 19 ''prototype'' = Ref 21"
  "to_key (field demo_state 21 ''className'') = Some ''Class''"
  "21 < length (heap demo_state)"
  "logged demo_state = []"
  "default_members demo_state 21"
  "for_in_keys demo_state (Ref 0) = []"
  "classes demo_state = [''Class'' \<mapsto> Ref 19]"
  "unsafeMixin demo_state (lang demo_state) = Some (Str ''unsafe mixin'')"
  unfolding demo_state_def
  by (simp_all add: class_state_facts class_state_defaults class_state_object_keys strings_en_def)

subsection \<open>Examples: construction, \<^verbatim>\<open>implement\<close> and \<^verbatim>\<open>extend\<close>\<close>

lemma pet_heap:
  "heap pet_state = heap demo_state @ [plain [(''legs'', Num 4)], plain [(''tail'', Bool True)]]"
  by (simp add: pet_state_def)

lemma pet_frame: "same_below (length (heap demo_state)) demo_state pet_state"
  by (simp add: same_below_def pet_heap)

lemma pet_facts:
  "loaded pet_state"
  "is_Type pet_state 19"
  "field pet_state 19 ''prototype'' = Ref 21"
  "to_key (field pet_state 21 ''className'') = Some ''Class''"
  "pristine pet_state"
  "length (heap pet_state) = Suc (Suc (length (heap demo_state)))"
  "classes pet_state = [''Class'' \<mapsto> Ref 19]"
  "logged pet_state = []"
proof -
  show "loaded pet_state" using demo_facts(1) pet_frame by (rule loaded_same_below)
  show "is_Type pet_state 19" using demo_facts(2) pet_frame by (rule is_Type_same_below)
  show "field pet_state 19 ''prototype'' = Ref 21"
    using same_below_field[OF pet_frame, of 19] demo_facts(3,5) by simp
  show "to_key (field pet_state 21 ''className'') = Some ''Class''"
    using same_below_field[OF pet_frame, of 21] demo_facts(4,5) by simp
  show "pristine pet_state"
    using demo_pristine pet_frame by (rule pristine_same_below) (use demo_facts(5) in simp)
  show "length (heap pet_state) = Suc (Suc (length (heap demo_state)))" by (simp add: pet_heap)
  show "classes pet_state = [''Class'' \<mapsto> Ref 19]" by (simp add: pet_state_def demo_facts)
  show "logged pet_state = []" by (simp add: pet_state_def demo_facts)
qed

lemma pet_legs:
  "lookup (heap pet_state) (length (heap demo_state)) k = map_of [(''legs'', Num 4)] k"
  "\<not> is_fun pet_state (Ref (length (heap demo_state)))"
  "instanceof_Object pet_state (Ref (length (heap demo_state)))"
  "bounded pet_state (Ref (length (heap demo_state)))"
  "definition_ok pet_state (Ref (length (heap demo_state)))"
proof -
  have d: "length (heap demo_state) < length (heap pet_state)" "0 < length (heap demo_state)"
    using demo_facts(5) by (simp_all add: pet_facts)
  have n: "heap pet_state ! length (heap demo_state) = plain [(''legs'', Num 4)]"
    by (simp add: pet_heap)
  note p = plain_object[OF pet_facts(5) d(1) n d(2)]
  show "lookup (heap pet_state) (length (heap demo_state)) k = map_of [(''legs'', Num 4)] k"
    by (rule p(1))
  show "\<not> is_fun pet_state (Ref (length (heap demo_state)))" by (rule p(3))
  show "instanceof_Object pet_state (Ref (length (heap demo_state)))" by (rule p(4))
  show "bounded pet_state (Ref (length (heap demo_state)))" by (rule p(6))
  show "definition_ok pet_state (Ref (length (heap demo_state)))"
    unfolding definition_ok_def using p(3) p(6) by (simp add: p(2) to_key_def)
qed

lemma pet_tail:
  "definition_ok pet_state (Ref (Suc (length (heap demo_state))))"
proof -
  have d: "Suc (length (heap demo_state)) < length (heap pet_state)"
    "0 < Suc (length (heap demo_state))"
    by (simp_all add: pet_facts)
  have n: "heap pet_state ! Suc (length (heap demo_state)) = plain [(''tail'', Bool True)]"
    by (simp add: pet_heap nth_append)
  note p = plain_object[OF pet_facts(5) d(1) n d(2)]
  show ?thesis
    unfolding definition_ok_def using p(3) p(6) by (simp add: p(2) to_key_def)
qed


theorem implement_sequential_witness:
  "loaded pet_state \<and>
   call 3 pet_state (Ref implement_addr) (Ref 19)
      [Arr [Ref (length (heap demo_state)), Ref (Suc (length (heap demo_state)))]]
    = extend_each (call 2)
        [Ref (length (heap demo_state)), Ref (Suc (length (heap demo_state)))] pet_state (Ref 19) \<and>
   (\<exists>c s'. call 3 pet_state (Ref implement_addr) (Ref 19)
              [Arr [Ref (length (heap demo_state)), Ref (Suc (length (heap demo_state)))]]
            = Some (Ok (Ref c) s') \<and> is_Type s' c)"
proof -
  let ?ds = "[Ref (length (heap demo_state)), Ref (Suc (length (heap demo_state)))]"
  have ok: "\<forall>v \<in> set ?ds. definition_ok pet_state v" using pet_legs(5) pet_tail by simp
  from extend_each_frame[OF pet_facts(1,2) ok, of 0] obtain c s' where
    "extend_each (call 2) ?ds pet_state (Ref 19) = Some (Ok (Ref c) s')" "is_Type s' c"
    unfolding numeral_2_eq_2 by blast
  then show ?thesis
    using implement_sequential[OF pet_facts(1), of 2 "Ref 19" ?ds] pet_facts(1)
    by (simp add: numeral_3_eq_3 numeral_2_eq_2)
qed




subsection \<open>Example: binding twice\<close>





subsection \<open>Examples: \<^verbatim>\<open>mixin\<close>\<close>






subsection \<open>Example: \<^verbatim>\<open>speak\<close>\<close>

lemma demo_speak: "field demo_state 21 ''speak'' = Undefined"
  unfolding demo_state_def by (rule class_state_unset) (simp_all add: module_literal_keys)

theorem parent_chain_order_witness:
  "loaded demo_state \<and> is_Type demo_state 19 \<and> field demo_state 19 ''prototype'' = Ref 21 \<and>
   default_members demo_state 21 \<and> for_in_keys demo_state (Ref object_proto) = [] \<and>
   field demo_state 21 ''speak'' = Undefined \<and>
   (\<exists>s'. override_program 5 ''speak''
            [returns (Str ''base''), calls_parent (prepend ''child-'')] demo_state (Ref 19)
          = Some (Ok (Str ''child-base'') s')) \<and>
   (\<exists>s'. override_program 7 ''speak''
            [returns (Str ''base''), calls_parent (prepend ''child-''),
             calls_parent (prepend ''grand-'')] demo_state (Ref 19)
          = Some (Ok (Str ''grand-child-base'') s'))"
proof -
  have k: "for_in_keys demo_state (Ref object_proto) = []"
    using demo_facts(8) by (simp add: object_proto_def)
  have n: "''speak'' \<noteq> ''className''" by simp
  note th = parent_chain_order[OF demo_facts(1,2,3,7) k demo_speak n]
  have 1: "\<exists>s'. override_program 5 ''speak''
            [returns (Str ''base''), calls_parent (prepend ''child-'')] demo_state (Ref 19)
          = Some (Ok (Str ''child-base'') s')"
    using th[of "[prepend ''child-'']" 0 "Str ''base''"] by (simp add: prepend_def)
  have 2: "\<exists>s'. override_program 7 ''speak''
            [returns (Str ''base''), calls_parent (prepend ''child-''),
             calls_parent (prepend ''grand-'')] demo_state (Ref 19)
          = Some (Ok (Str ''grand-child-base'') s')"
    using th[of "[prepend ''child-'', prepend ''grand-'']" 0 "Str ''base''"]
    by (simp add: prepend_def)
  from demo_facts(1,2,3,7) k demo_speak 1 2 show ?thesis by (intro conjI)
qed

subsection \<open>Example: a counter in \<^verbatim>\<open>init\<close>\<close>

lemma frame_field:
  assumes "take (length (heap s)) (heap s') = heap s" "a < length (heap s)"
  shows "field s' a k = field s a k"
proof -
  have "length (take (length (heap s)) (heap s')) = length (heap s)" using assms(1) by simp
  then have "length (heap s) \<le> length (heap s')" by simp
  then have "same_below (length (heap s)) s s'" using assms(1) by (simp add: same_below_def)
  then show ?thesis using assms(2) by (rule same_below_field)
qed

lemma counter_init_frame: "same_below (length (heap demo_state)) demo_state counter_init"
  unfolding counter_init_def by (rule same_below_alloc) simp

lemma counter_init_facts:
  "loaded counter_init"
  "is_Type counter_init 19"
  "field counter_init 19 ''prototype'' = Ref 21"
  "for_in_keys counter_init (Ref object_proto) = []"
  "default_members counter_init 21"
  "field counter_init 21 ''parent'' = Undefined"
  "length (heap counter_init) = Suc counter_addr"
  "field counter_init counter_addr ''n'' = Num 0"
proof -
  note sb = counter_init_frame
  note f = same_below_field[OF sb]
  show "loaded counter_init" using demo_facts(1) sb by (rule loaded_same_below)
  show "is_Type counter_init 19" using demo_facts(2) sb by (rule is_Type_same_below)
  show "field counter_init 19 ''prototype'' = Ref 21"
    using f[of 19] demo_facts(3,5) by simp
  show "for_in_keys counter_init (Ref object_proto) = []"
    using same_below_keys[OF sb, of 0] demo_facts(5,8) by (simp add: object_proto_def)
  have "field counter_init 21 ''init'' = field demo_state 21 ''init''"
    "field counter_init 21 ''mixin'' = field demo_state 21 ''mixin''"
    using f[of 21] demo_facts(5) by simp_all
  with demo_facts(7) sb show "default_members counter_init 21"
    by (rule default_members_transfer)
  have "field demo_state 21 ''parent'' = Undefined"
    unfolding demo_state_def by (rule class_state_unset) (simp_all add: module_literal_keys)
  then show "field counter_init 21 ''parent'' = Undefined" using f[of 21] demo_facts(5) by simp
  show "length (heap counter_init) = Suc counter_addr"
    by (simp add: counter_init_def counter_addr_def)
  have p: "pristine counter_init"
    using demo_pristine sb by (rule pristine_same_below) (use demo_facts(5) in simp)
  have n: "heap counter_init ! counter_addr = plain [(''n'', Num 0)]"
    by (simp add: counter_init_def counter_addr_def)
  have c: "counter_addr < length (heap counter_init)" "0 < counter_addr"
    using demo_facts(5) by (simp_all add: counter_init_def counter_addr_def)
  show "field counter_init counter_addr ''n'' = Num 0"
    using plain_object(2)[OF p c(1) n c(2), of "''n''"] by simp
qed

lemma counter_state_facts:
  "loaded counter_state \<and> \<not> extending counter_state \<and> is_Type counter_state Base_addr
   \<and> same_below (Suc counter_addr) counter_init counter_state
   \<and> callable (heap counter_state ! Suc counter_addr) = Some (UserFn bump)
   \<and> (\<exists>o' w pf. field counter_state Base_addr ''prototype'' = Ref o'
         \<and> field counter_state o' ''init'' = Ref w \<and> w < length (heap counter_state)
         \<and> callable (heap counter_state ! w) = Some (ParentFn (Ref (Suc counter_addr)) pf)
         \<and> field counter_state o' ''parent'' = Undefined)"
proof -
  note ci = counter_init_facts
  from default_membersD[OF ci(5)] obtain i where
    i: "field counter_init 21 ''init'' = Ref i" "i < length (heap counter_init)"
       "callable (heap counter_init ! i) = Some InitFn" by blast
  have b: "bounded counter_init (field counter_init 21 ''init'')" using i by simp
  have isf: "is_fun counter_init (field counter_init 21 ''init'')"
    using i by (simp add: is_fun_Ref)
  have m: "''init'' \<noteq> ''className''" by simp
  from literal_step[OF ci(1,2,3,4) m b, where body = bump and n = 0] obtain s' o' where
    r: "(case method_literal ''init'' bump counter_init of
          (d, s1) \<Rightarrow> invoke (Suc (Suc (Suc 0))) s1 (Ref 19) ''extend'' [d])
        = Some (Ok (Ref (Suc (Suc (Suc (length (heap counter_init)))))) s')"
    and e: "\<not> extending s'"
    and f: "loaded s'" "is_Type s' (Suc (Suc (Suc (length (heap counter_init)))))"
      "field s' (Suc (Suc (Suc (length (heap counter_init))))) ''prototype'' = Ref o'"
    and inh: "\<forall>k. k \<noteq> ''init'' \<longrightarrow> field s' o' k = field counter_init 21 k"
    and g: "same_below (length (heap counter_init)) counter_init s'"
      "callable (heap s' ! length (heap counter_init)) = Some (UserFn bump)"
    and w: "if is_fun counter_init (field counter_init 21 ''init'')
       then (\<exists>w. field s' o' ''init'' = Ref w \<and> w < length (heap s')
               \<and> callable (heap s' ! w)
                   = Some (ParentFn (Ref (length (heap counter_init))) (field counter_init 21 ''init'')))
       else field s' o' ''init'' = Ref (length (heap counter_init))"
    by (elim exE conjE) blast
  have cs: "counter_state = s'"
    using r by (simp add: counter_state_def state_of_def numeral_3_eq_3)
  from w isf obtain w' where
    w': "field s' o' ''init'' = Ref w'" "w' < length (heap s')"
      "callable (heap s' ! w')
         = Some (ParentFn (Ref (length (heap counter_init))) (field counter_init 21 ''init''))"
    by auto
  have pa: "field s' o' ''parent'' = Undefined" using inh ci(6) by simp
  show ?thesis
    unfolding cs Base_addr_def
    using e f g w' pa by (auto simp: ci(7))
qed

lemma counter_zero: "field counter_state counter_addr ''n'' = Num 0"
  using same_below_field[OF counter_state_facts[THEN conjunct2, THEN conjunct2, THEN conjunct2,
        THEN conjunct1],
      of counter_addr "''n''"]
  by (simp add: counter_init_facts)

lemma set_val_Ref: "a < length (heap s) \<Longrightarrow> set_val s (Ref a) k x = Inr (put s a k x)"
  by (simp add: set_val_def)

lemma counter_construct:
  "\<exists>s'. construct (call 3) counter_state (Ref Base_addr) []
           = Some (Ok (Ref (length (heap counter_state))) s')
       \<and> field s' counter_addr ''n'' = Num 1"
proof -
  let ?s = counter_state
  let ?a = "length (heap ?s)"
  let ?f = "Suc counter_addr"
  from counter_state_facts obtain o' w pf where
    L: "loaded ?s" and E: "\<not> extending ?s" and T: "is_Type ?s Base_addr"
    and sb: "same_below (Suc counter_addr) counter_init ?s"
    and cf: "callable (heap ?s ! ?f) = Some (UserFn bump)"
    and P: "field ?s Base_addr ''prototype'' = Ref o'"
    and I: "field ?s o' ''init'' = Ref w" "w < ?a"
      "callable (heap ?s ! w) = Some (ParentFn (Ref ?f) pf)"
    and PA: "field ?s o' ''parent'' = Undefined"
    by (elim exE conjE) blast
  from is_Type_proto[OF T] P have o: "o' < ?a" by simp
  from T have t: "Base_addr < ?a" "callable (heap ?s ! Base_addr) = Some ClassFn"
    by (auto simp: is_Type_def split: option.splits code.splits)
  have c: "counter_addr < ?a" "?f < ?a" using t(1) by (simp_all add: Base_addr_def)
  define s1 where "s1 = snd (alloc \<lparr>props = [], proto = Some o', callable = None\<rparr> ?s)"
  define s2 where "s2 = put s1 ?a ''parent'' pf"
  define s3 where "s3 = put s2 counter_addr ''n'' (Num 1)"
  define s4 where "s4 = put s3 ?a ''parent'' Undefined"
  have len: "length (heap s1) = Suc ?a" "length (heap s2) = Suc ?a" "length (heap s3) = Suc ?a"
    by (simp_all add: s1_def s2_def s3_def)
  have f1: "\<And>k. field s1 ?a k = field ?s o' k"
    unfolding s1_def using o by (rule field_alloc_new)
  have old: "\<And>b. b < ?a \<Longrightarrow> heap s1 ! b = heap ?s ! b" by (simp add: s1_def nth_append)
  have e1: "\<not> extending s1" using E by (simp add: s1_def)
  have n2: "field s2 counter_addr ''n'' = Num 0"
    using c(1) counter_zero by (simp add: s2_def s1_def)
  have body: "run_act (call 0) (bump (Ref ?a) []) s2 = Some (Ok Undefined s3)"
    using c(1) by (simp add: bump_def get_val_Ref field_def[symmetric] n2 set_val_Ref len s3_def)
  have user: "call (Suc 0) s2 (Ref ?f) (Ref ?a) [] = Some (Ok Undefined s3)"
    using c(2) cf body by (simp add: call_code len s2_def old)
  have wrap: "call (Suc (Suc 0)) s1 (Ref w) (Ref ?a) [] = Some (Ok Undefined s4)"
    using I(2,3) user
    by (simp add: call_code len old parent_call_def f1 PA s2_def[symmetric] s4_def)
  have cls: "call (Suc (Suc (Suc 0))) s1 (Ref Base_addr) (Ref ?a) [] = Some (Ok Undefined s4)"
    using t wrap e1 by (simp add: call_code len old class_call_def f1 I(1))
  have isf: "is_fun ?s (Ref Base_addr)" using t by (simp add: is_fun_Ref)
  have res: "construct (call 3) ?s (Ref Base_addr) [] = Some (Ok (Ref ?a) s4)"
    using isf cls P
    by (simp add: construct_def split_def Let_def is_object_def numeral_3_eq_3 s1_def[symmetric])
  have "field s4 counter_addr ''n'' = Num 1"
    using c(1) by (simp add: s4_def s3_def len)
  with res show ?thesis by blast
qed

theorem extension_suppresses_init_witness:
  "loaded counter_state \<and> is_Type counter_state Base_addr \<and>
   field counter_state counter_addr ''n'' = Num 0 \<and>
   (\<exists>c s'. invoke 3 counter_state (Ref Base_addr) ''implement'' [Arr [Ref Base_addr, Arr []]]
              = Some (Ok (Ref c) s')
       \<and> take (length (heap counter_state)) (heap s') = heap counter_state
       \<and> field s' counter_addr ''n'' = Num 0) \<and>
   (\<exists>c s'. invoke 3 counter_state (Ref Base_addr) ''implement'' [Ref Base_addr]
              = Some (Ok (Ref c) s')
       \<and> take (length (heap counter_state)) (heap s') = heap counter_state
       \<and> field s' counter_addr ''n'' = Num 0) \<and>
   (\<exists>c s'. invoke 3 counter_state (Ref Base_addr) ''extend'' [Ref Base_addr]
              = Some (Ok (Ref c) s')
       \<and> take (length (heap counter_state)) (heap s') = heap counter_state
       \<and> field s' counter_addr ''n'' = Num 0) \<and>
   (\<exists>s'. construct (call 3) counter_state (Ref Base_addr) []
            = Some (Ok (Ref (length (heap counter_state))) s')
       \<and> field s' counter_addr ''n'' = Num 1)"
proof -
  let ?s = counter_state
  from counter_state_facts have L: "loaded ?s" and T: "is_Type ?s Base_addr" by simp_all
  note D = Type_is_definition[OF L T]
  have A: "definition_ok ?s (Arr [])"
    by (simp add: definition_ok_def get_or_def get_val_def index_get_def to_key_def)
  have c: "counter_addr < length (heap ?s)"
    using T by (simp add: is_Type_def Base_addr_def)
  have keep: "\<And>s'. take (length (heap ?s)) (heap s') = heap ?s
                \<Longrightarrow> field s' counter_addr ''n'' = Num 0"
    using frame_field[OF _ c, of _ "''n''"] counter_zero by simp
  note th = extension_suppresses_init[OF L T, of "[Ref Base_addr, Arr []]" 0 "Ref Base_addr"]
  have 1: "\<exists>c s'. invoke 3 ?s (Ref Base_addr) ''implement'' [Arr [Ref Base_addr, Arr []]]
              = Some (Ok (Ref c) s')
       \<and> take (length (heap ?s)) (heap s') = heap ?s \<and> field s' counter_addr ''n'' = Num 0"
    using th[THEN conjunct1] D(2) A keep by (simp add: numeral_3_eq_3) blast
  have 2: "\<exists>c s'. invoke 3 ?s (Ref Base_addr) ''implement'' [Ref Base_addr]
              = Some (Ok (Ref c) s')
       \<and> take (length (heap ?s)) (heap s') = heap ?s \<and> field s' counter_addr ''n'' = Num 0"
    using th[THEN conjunct2, THEN conjunct1] D(2) keep
    by (simp add: numeral_3_eq_3 instanceof_Array_def) blast
  have 3: "\<exists>c s'. invoke 3 ?s (Ref Base_addr) ''extend'' [Ref Base_addr]
              = Some (Ok (Ref c) s')
       \<and> take (length (heap ?s)) (heap s') = heap ?s \<and> field s' counter_addr ''n'' = Num 0"
    using th[THEN conjunct2, THEN conjunct2] D keep by (simp add: numeral_3_eq_3) blast
  from L T counter_zero 1 2 3 counter_construct show ?thesis by (intro conjI)
qed

end
